theory Spec2Isabelle
  imports Complex_Main "HOL-Library.Sublist" "HOL-Library.Log_Nat"
begin

section \<open>Strings\<close>

text \<open>
  A Python string is a sequence of Unicode code points and is modelled as a list of natural
  numbers. A string literal of the program is written \<open>asc ''...''\<close>, the code points of its
  characters; a single character is written as its code point (46 is the dot, 64 is \<open>@\<close>).
  Bytes, which the program only passes from the archive to the XML parser, stay lists of
  8-bit characters.
\<close>

type_synonym ustring = "nat list"

definition asc :: "string \<Rightarrow> ustring" where
  "asc s = map of_char s"

text \<open>
  The Unicode character database, which \<^verbatim>\<open>re\<close> and the methods of \<^verbatim>\<open>str\<close> consult, is a
  parameter of the model: a record \<open>T\<close> that tells which characters \<^verbatim>\<open>\d\<close>, \<^verbatim>\<open>\s\<close> and
  \<^verbatim>\<open>\w\<close> match, the value \<^verbatim>\<open>float\<close> gives a digit, which text character a literal
  of a pattern matches under \<^verbatim>\<open>re.IGNORECASE\<close>, and what \<^verbatim>\<open>str.lower\<close> and
  \<^verbatim>\<open>str.capitalize\<close> return. Every function of the program that consults it takes it as
  first argument.
\<close>

record unicode =
  is_digit :: "nat \<Rightarrow> bool"
  is_space :: "nat \<Rightarrow> bool"
  is_word :: "nat \<Rightarrow> bool"
  digit_value :: "nat \<Rightarrow> nat"
  ieq :: "nat \<Rightarrow> nat \<Rightarrow> bool"
  lower :: "ustring \<Rightarrow> ustring"
  capitalize :: "ustring \<Rightarrow> ustring"

fun join :: "ustring \<Rightarrow> ustring list \<Rightarrow> ustring" where
  "join sep [] = []"
| "join sep [x] = x"
| "join sep (x # y # ys) = x @ sep @ join sep (y # ys)"

definition endswith :: "ustring \<Rightarrow> ustring \<Rightarrow> bool" where
  "endswith s suf = suffix suf s"

section \<open>The regular expressions in use\<close>

text \<open>
  A backtracking matcher for the fragment of \<^verbatim>\<open>re\<close> the program uses. \<open>rmatch T ic r s\<close>
  lists, in the order in which backtracking tries them, the rests of \<open>s\<close> after each way
  of matching \<open>r\<close> at the start of \<open>s\<close>; its head is the match \<^verbatim>\<open>re\<close> reports. The flag
  \<open>ic\<close> is \<^verbatim>\<open>re.IGNORECASE\<close>: it changes what a literal and a range match, and leaves the
  classes \<^verbatim>\<open>\d\<close>, \<^verbatim>\<open>\w\<close>, \<^verbatim>\<open>\s\<close> as they are. Repetition is greedy.
\<close>

datatype atom = Lit nat | Rng nat nat | Digit | Word | Space

datatype rx = Eps | Sym "atom list" | Seq rx rx | Alt rx rx | Star rx

fun atom_match :: "unicode \<Rightarrow> bool \<Rightarrow> atom \<Rightarrow> nat \<Rightarrow> bool" where
  "atom_match T ic (Lit a) c = (if ic then ieq T a c else a = c)"
| "atom_match T ic (Rng a b) c =
     (if ic then list_ex (\<lambda>x. ieq T x c) [a..<Suc b] else a \<le> c \<and> c \<le> b)"
| "atom_match T ic Digit c = is_digit T c"
| "atom_match T ic Word c = is_word T c"
| "atom_match T ic Space c = is_space T c"

definition sym_match :: "unicode \<Rightarrow> bool \<Rightarrow> atom list \<Rightarrow> nat \<Rightarrow> bool" where
  "sym_match T ic as c = list_ex (\<lambda>a. atom_match T ic a c) as"

fun rmatch :: "unicode \<Rightarrow> bool \<Rightarrow> rx \<Rightarrow> ustring \<Rightarrow> ustring list" where
  "rmatch T ic Eps s = [s]"
| "rmatch T ic (Sym as) s =
     (case s of [] \<Rightarrow> [] | c # cs \<Rightarrow> if sym_match T ic as c then [cs] else [])"
| "rmatch T ic (Seq r1 r2) s = concat (map (rmatch T ic r2) (rmatch T ic r1 s))"
| "rmatch T ic (Alt r1 r2) s = rmatch T ic r1 s @ rmatch T ic r2 s"
| "rmatch T ic (Star r) s =
     concat (map (\<lambda>s'. if length s' < length s then rmatch T ic (Star r) s' else [])
                 (rmatch T ic r s)) @ [s]"

definition Plus :: "rx \<Rightarrow> rx" where
  "Plus r = Seq r (Star r)"

definition Opt :: "rx \<Rightarrow> rx" where
  "Opt r = Alt r Eps"

fun AtLeast :: "nat \<Rightarrow> rx \<Rightarrow> rx" where
  \<comment> \<open>\<^verbatim>\<open>r{n,}\<close>\<close>
  "AtLeast 0 r = Star r"
| "AtLeast (Suc n) r = Seq r (AtLeast n r)"

definition Str :: "ustring \<Rightarrow> rx" where
  \<comment> \<open>a literal string\<close>
  "Str s = foldr (\<lambda>c r. Seq (Sym [Lit c]) r) s Eps"

definition re_escape :: "ustring \<Rightarrow> rx" where
  \<comment> \<open>\<^verbatim>\<open>re.escape(kw)\<close> compiled: every character of \<open>kw\<close> stands for itself\<close>
  "re_escape kw = Str kw"

definition first_match :: "unicode \<Rightarrow> bool \<Rightarrow> rx \<Rightarrow> ustring \<Rightarrow> ustring option" where
  "first_match T ic r s = (case rmatch T ic r s of [] \<Rightarrow> None | s' # _ \<Rightarrow> Some s')"

fun re_search :: "unicode \<Rightarrow> bool \<Rightarrow> rx \<Rightarrow> ustring \<Rightarrow> bool" where
  \<comment> \<open>\<^verbatim>\<open>re.search(r, s)\<close> as a truth value: is there a match at some position\<close>
  "re_search T ic r [] = (first_match T ic r [] \<noteq> None)"
| "re_search T ic r (c # cs) = (first_match T ic r (c # cs) \<noteq> None \<or> re_search T ic r cs)"

text \<open>
  \<^verbatim>\<open>re.findall\<close> for a pattern without groups, and for a pattern \<^verbatim>\<open>(g)r\<close> made of one
  group followed by a rest, where it returns what the group matched. The scan resumes
  where the match ended. None of the program's patterns matches the empty string; the
  scan steps over one character after an empty match.
\<close>

function findall :: "unicode \<Rightarrow> bool \<Rightarrow> rx \<Rightarrow> ustring \<Rightarrow> ustring list" where
  "findall T ic r s =
     (case first_match T ic r s of
        None \<Rightarrow> (case s of [] \<Rightarrow> [] | c # cs \<Rightarrow> findall T ic r cs)
      | Some s' \<Rightarrow>
          if length s' < length s
          then take (length s - length s') s # findall T ic r s'
          else take (length s - length s') s # (case s of [] \<Rightarrow> [] | c # cs \<Rightarrow> findall T ic r cs))"
  by pat_completeness auto
termination
  by (relation "measure (\<lambda>(T, ic, r, s). length s)") auto

definition first_match_group ::
  "unicode \<Rightarrow> bool \<Rightarrow> rx \<Rightarrow> rx \<Rightarrow> ustring \<Rightarrow> (ustring \<times> ustring) option" where
  \<comment> \<open>the first match of \<^verbatim>\<open>(g)r\<close>: the rest after the group and the rest after the match\<close>
  "first_match_group T ic g r s =
     (case concat (map (\<lambda>s1. map (\<lambda>s2. (s1, s2)) (rmatch T ic r s1)) (rmatch T ic g s)) of
        [] \<Rightarrow> None | p # _ \<Rightarrow> Some p)"

function findall_group :: "unicode \<Rightarrow> bool \<Rightarrow> rx \<Rightarrow> rx \<Rightarrow> ustring \<Rightarrow> ustring list" where
  "findall_group T ic g r s =
     (case first_match_group T ic g r s of
        None \<Rightarrow> (case s of [] \<Rightarrow> [] | c # cs \<Rightarrow> findall_group T ic g r cs)
      | Some (s1, s2) \<Rightarrow>
          if length s2 < length s
          then take (length s - length s1) s # findall_group T ic g r s2
          else take (length s - length s1) s #
                 (case s of [] \<Rightarrow> [] | c # cs \<Rightarrow> findall_group T ic g r cs))"
  by pat_completeness auto
termination
  by (relation "measure (\<lambda>(T, ic, g, r, s). length s)") auto

text \<open>
  Splitting a string at every character that satisfies \<open>sep\<close>: \<^verbatim>\<open>re.split\<close> for a pattern
  that matches single characters, and \<^verbatim>\<open>str.split\<close> for a separator of one character.
\<close>

fun split_on :: "(nat \<Rightarrow> bool) \<Rightarrow> ustring \<Rightarrow> ustring list" where
  "split_on sep [] = [[]]"
| "split_on sep (c # cs) =
     (if sep c then [] # split_on sep cs
      else (case split_on sep cs of [] \<Rightarrow> [[c]] | p # ps \<Rightarrow> (c # p) # ps))"

definition re_split :: "unicode \<Rightarrow> atom list \<Rightarrow> ustring \<Rightarrow> ustring list" where
  \<comment> \<open>\<^verbatim>\<open>re.split(r, s)\<close> for a character class \<open>r\<close>, compiled without flags\<close>
  "re_split T as s = split_on (sym_match T False as) s"

definition str_split :: "nat \<Rightarrow> ustring \<Rightarrow> ustring list" where
  \<comment> \<open>\<^verbatim>\<open>s.split(c)\<close> for a separator of one character\<close>
  "str_split c s = split_on (\<lambda>x. x = c) s"

definition EMAIL_REGEX :: rx where
  \<comment> \<open>\<^verbatim>\<open>[\w\.-]+@[\w\.-]+\.[a-zA-Z]{2,}\<close>; 46 is the dot, 45 the hyphen, 64 is \<open>@\<close>,
      97 to 122 are \<open>a\<close> to \<open>z\<close> and 65 to 90 are \<open>A\<close> to \<open>Z\<close>\<close>
  "EMAIL_REGEX =
     Seq (Plus (Sym [Word, Lit 46, Lit 45]))
      (Seq (Sym [Lit 64])
        (Seq (Plus (Sym [Word, Lit 46, Lit 45]))
          (Seq (Sym [Lit 46])
               (AtLeast 2 (Sym [Rng 97 122, Rng 65 90])))))"

definition PHONE_REGEX :: rx where
  \<comment> \<open>\<^verbatim>\<open>\+?\d[\d \-]{7,}\d\<close>; 43 is the plus sign, 32 the space, 45 the hyphen\<close>
  "PHONE_REGEX =
     Seq (Opt (Sym [Lit 43]))
      (Seq (Sym [Digit])
        (Seq (AtLeast 7 (Sym [Digit, Lit 32, Lit 45])) (Sym [Digit])))"

definition EXP_NUMBER :: rx where
  \<comment> \<open>the group \<^verbatim>\<open>(\d+(?:\.\d+)?)\<close>\<close>
  "EXP_NUMBER = Seq (Plus (Sym [Digit])) (Opt (Seq (Sym [Lit 46]) (Plus (Sym [Digit]))))"

definition EXP_UNIT :: rx where
  \<comment> \<open>the rest \<^verbatim>\<open>\s*(?:years|yrs|year)\<close>\<close>
  "EXP_UNIT =
     Seq (Star (Sym [Space]))
         (Alt (Str (asc ''years'')) (Alt (Str (asc ''yrs'')) (Str (asc ''year''))))"

section \<open>Floating point\<close>

text \<open>
  A Python float is an IEEE 754 binary64 number. Finite floats are modelled by the
  rationals they denote, and every arithmetic operation rounds its exact result to the
  nearest float, ties to even (\<open>fl\<close>). The only operation of the program that can
  overflow is \<^verbatim>\<open>float(m)\<close> on a long digit string, which yields infinity. Negative
  zero and NaN do not arise: the one float that comes from outside, the minimum
  experience, is taken to be finite.
\<close>

datatype pyfloat = Fin rat | PosInf

instantiation pyfloat :: linorder
begin

fun less_eq_pyfloat :: "pyfloat \<Rightarrow> pyfloat \<Rightarrow> bool" where
  "less_eq_pyfloat (Fin a) (Fin b) = (a \<le> b)"
| "less_eq_pyfloat x PosInf = True"
| "less_eq_pyfloat PosInf (Fin b) = False"

definition less_pyfloat :: "pyfloat \<Rightarrow> pyfloat \<Rightarrow> bool" where
  "less_pyfloat x y = (x \<le> y \<and> \<not> y \<le> x)"

instance
proof
  fix x y z :: pyfloat
  show "(x < y) = (x \<le> y \<and> \<not> y \<le> x)"
    by (simp add: less_pyfloat_def)
  show "x \<le> x"
    by (cases x) simp_all
  show "x \<le> y \<Longrightarrow> y \<le> z \<Longrightarrow> x \<le> z"
    by (cases x; cases y; cases z) simp_all
  show "x \<le> y \<Longrightarrow> y \<le> x \<Longrightarrow> x = y"
    by (cases x; cases y) simp_all
  show "x \<le> y \<or> y \<le> x"
    by (cases x; cases y) auto
qed

end

definition pow2 :: "int \<Rightarrow> rat" where
  "pow2 e = (if 0 \<le> e then 2 ^ nat e else 1 / 2 ^ nat (- e))"

definition rhe :: "rat \<Rightarrow> int" where
  \<comment> \<open>round to the nearest integer, ties to even\<close>
  "rhe x = (let f = \<lfloor>x\<rfloor>; d = x - of_int f
            in if d < 1 / 2 then f else if 1 / 2 < d then f + 1
               else if even f then f else f + 1)"

definition ilog2 :: "rat \<Rightarrow> int" where
  \<comment> \<open>the binary exponent of a positive rational: \<open>pow2 (ilog2 x) \<le> x < pow2 (ilog2 x + 1)\<close>\<close>
  "ilog2 x = (if 1 \<le> x then bitlen \<lfloor>x\<rfloor> - 1 else - bitlen (\<lceil>1 / x\<rceil> - 1))"

definition ulp_exp :: "rat \<Rightarrow> int" where
  \<comment> \<open>the exponent of the last of 53 significant bits; subnormal below \<open>pow2 (-1022)\<close>\<close>
  "ulp_exp x = max (ilog2 \<bar>x\<bar> - 52) (- 1074)"

definition fl :: "rat \<Rightarrow> rat" where
  "fl x = (if x = 0 then 0 else of_int (rhe (x / pow2 (ulp_exp x))) * pow2 (ulp_exp x))"

definition to_float :: "rat \<Rightarrow> pyfloat" where
  \<comment> \<open>rounding with overflow to infinity\<close>
  "to_float x = (let r = fl x in if 2 ^ 1024 \<le> r then PosInf else Fin r)"

definition fmul :: "rat \<Rightarrow> rat \<Rightarrow> rat" where
  "fmul a b = fl (a * b)"

definition fsub :: "rat \<Rightarrow> rat \<Rightarrow> rat" where
  "fsub a b = fl (a - b)"

definition py_round :: "rat \<Rightarrow> nat \<Rightarrow> rat" where
  \<comment> \<open>\<^verbatim>\<open>round(x, n)\<close>: the exact value rounded half-even to \<open>n\<close> decimals, then to a float\<close>
  "py_round x n = fl (of_int (rhe (x * 10 ^ n)) / 10 ^ n)"

section \<open>Exceptions\<close>

datatype exn = ZeroDivisionError | ValueError | KeyError | LibraryError string

text \<open>
  \<open>LibraryError\<close> stands for any exception raised inside pdfminer, python-docx,
  \<^verbatim>\<open>zipfile\<close> or \<^verbatim>\<open>ElementTree\<close>. All four constructors are subclasses of
  \<^verbatim>\<open>Exception\<close>, which is what the handlers of the program catch.
\<close>

definition ebind :: "exn + 'a \<Rightarrow> ('a \<Rightarrow> exn + 'b) \<Rightarrow> exn + 'b" where
  "ebind m f = (case m of Inl e \<Rightarrow> Inl e | Inr v \<Rightarrow> f v)"

definition try_except :: "exn + 'a \<Rightarrow> (exn \<Rightarrow> exn + 'a) \<Rightarrow> exn + 'a" where
  \<comment> \<open>\<^verbatim>\<open>try: body  except Exception as e: handler\<close>\<close>
  "try_except body handler = (case body of Inl e \<Rightarrow> handler e | Inr v \<Rightarrow> Inr v)"

definition py_div :: "nat \<Rightarrow> nat \<Rightarrow> exn + rat" where
  \<comment> \<open>true division of two integers: the quotient, correctly rounded\<close>
  "py_div a b = (if b = 0 then Inl ZeroDivisionError else Inr (fl (of_nat a / of_nat b)))"

fun py_max :: "pyfloat list \<Rightarrow> exn + pyfloat" where
  "py_max [] = Inl ValueError"
| "py_max (x # xs) = Inr (foldl (\<lambda>m y. if m < y then y else m) x xs)"

definition digits_value :: "unicode \<Rightarrow> ustring \<Rightarrow> nat" where
  "digits_value T ds = foldl (\<lambda>n c. 10 * n + digit_value T c) 0 ds"

definition is_decimal :: "unicode \<Rightarrow> ustring \<Rightarrow> bool" where
  \<comment> \<open>digits with at most one point (46) among them, and at least one digit\<close>
  "is_decimal T s =
     (let ip = takeWhile (is_digit T) s; r = dropWhile (is_digit T) s
      in (r = [] \<or> hd r = 46) \<and> list_all (is_digit T) (drop 1 r) \<and> (ip \<noteq> [] \<or> drop 1 r \<noteq> []))"

definition dec_value :: "unicode \<Rightarrow> ustring \<Rightarrow> rat" where
  "dec_value T s =
     (let ip = takeWhile (is_digit T) s; fp = drop 1 (dropWhile (is_digit T) s)
      in of_nat (digits_value T ip) + of_nat (digits_value T fp) / 10 ^ length fp)"

definition py_float :: "unicode \<Rightarrow> ustring \<Rightarrow> exn + pyfloat" where
  \<comment> \<open>\<^verbatim>\<open>float(s)\<close> on unsigned decimal strings without exponent, the only kind the pattern
      captures; on any other string this model raises\<close>
  "py_float T s = (if is_decimal T s then Inr (to_float (dec_value T s)) else Inl ValueError)"

fun map_exn :: "('a \<Rightarrow> exn + 'b) \<Rightarrow> 'a list \<Rightarrow> exn + 'b list" where
  \<comment> \<open>a list comprehension whose element expression may raise\<close>
  "map_exn f [] = Inr []"
| "map_exn f (x # xs) = ebind (f x) (\<lambda>y. ebind (map_exn f xs) (\<lambda>ys. Inr (y # ys)))"

section \<open>Paths\<close>

text \<open>\<^verbatim>\<open>os.path\<close> is \<^verbatim>\<open>posixpath\<close>: the separator is the slash (47); the dot is 46.\<close>

definition rfind :: "nat \<Rightarrow> ustring \<Rightarrow> int" where
  \<comment> \<open>\<^verbatim>\<open>s.rfind(c)\<close>: the last index of \<open>c\<close>, or -1\<close>
  "rfind c s = (case filter (\<lambda>i. s ! i = c) (rev [0..<length s]) of [] \<Rightarrow> - 1 | i # _ \<Rightarrow> int i)"

function only_dots :: "ustring \<Rightarrow> int \<Rightarrow> int \<Rightarrow> bool" where
  \<comment> \<open>the loop of \<^verbatim>\<open>_splitext\<close> that skips leading dots: true when it runs to the end\<close>
  "only_dots p filenameIndex dotIndex =
     (if filenameIndex < dotIndex
      then (if p ! nat filenameIndex \<noteq> 46 then False
            else only_dots p (filenameIndex + 1) dotIndex)
      else True)"
  by pat_completeness auto
termination
  by (relation "measure (\<lambda>(p, k, d). nat (d - k))") auto

definition splitext :: "ustring \<Rightarrow> ustring \<times> ustring" where
  "splitext p =
     (let sepIndex = rfind 47 p; dotIndex = rfind 46 p
      in if dotIndex > sepIndex \<and> \<not> only_dots p (sepIndex + 1) dotIndex
         then (take (nat dotIndex) p, drop (nat dotIndex) p)
         else (p, []))"

definition basename :: "ustring \<Rightarrow> ustring" where
  "basename p = drop (nat (rfind 47 p + 1)) p"


section \<open>The outside world\<close>

text \<open>
  What the program reads through its libraries is a parameter of the model: for each
  path, what \<^verbatim>\<open>pdf_extract\<close> returns or raises, what paragraphs python-docx finds,
  what archive \<^verbatim>\<open>zipfile.ZipFile\<close> opens (a map from entry names to bytes), and what
  tree \<^verbatim>\<open>ET.fromstring\<close> parses from some bytes.
\<close>

datatype element = Element (tag: ustring) (text': "ustring option") (children: "element list")

fun iter :: "element \<Rightarrow> element list" where
  \<comment> \<open>\<^verbatim>\<open>tree.iter()\<close>: the element and its descendants in document order\<close>
  "iter (Element t x cs) = Element t x cs # concat (map iter cs)"

record env =
  pdf_extract :: "ustring \<Rightarrow> exn + ustring"
  Document_paragraphs :: "ustring \<Rightarrow> exn + ustring list"
  ZipFile :: "ustring \<Rightarrow> exn + (ustring \<rightharpoonup> string)"
  ET_fromstring :: "string \<Rightarrow> exn + element"

datatype event = LogInfo nat | LogWarning ustring exn | Progress rat

definition zip_read :: "(ustring \<rightharpoonup> string) \<Rightarrow> ustring \<Rightarrow> exn + string" where
  "zip_read z name = (case z name of None \<Rightarrow> Inl KeyError | Some bytes \<Rightarrow> Inr bytes)"

section \<open>Extraction utilities\<close>

fun collect_text :: "ustring \<Rightarrow> element list \<Rightarrow> ustring" where
  \<comment> \<open>the loop over \<^verbatim>\<open>tree.iter()\<close> of the fallback, \<open>acc\<close> being the variable \<^verbatim>\<open>text\<close>\<close>
  "collect_text acc [] = acc"
| "collect_text acc (node # nodes) =
     collect_text
       (if endswith (tag node) (asc ''}t'') \<or> tag node = asc ''t''
        then (case text' node of
                None \<Rightarrow> acc
              | Some t \<Rightarrow> if t \<noteq> [] then acc @ t @ asc '' '' else acc)
        else acc)
       nodes"

definition docx_fallback :: "env \<Rightarrow> ustring \<Rightarrow> exn + ustring" where
  "docx_fallback env path =
     ebind (ZipFile env path) (\<lambda>z.
     ebind (zip_read z (asc ''word/document.xml'')) (\<lambda>xml.
     ebind (ET_fromstring env xml) (\<lambda>tree.
     Inr (collect_text [] (iter tree)))))"

definition extract_text_from_file ::
  "unicode \<Rightarrow> env \<Rightarrow> ustring \<Rightarrow> exn + (ustring \<times> event list)" where
  \<comment> \<open>the text, and the warnings logged on the way\<close>
  "extract_text_from_file T env path =
     (let ext = lower T (snd (splitext path))
      in try_except
           (if ext = asc ''.pdf'' then ebind (pdf_extract env path) (\<lambda>t. Inr (t, []))
            else if ext = asc ''.docx'' then
              ebind (try_except
                       (ebind (Document_paragraphs env path) (\<lambda>ps. Inr (join [10] ps)))
                       (\<lambda>e. docx_fallback env path))
                    (\<lambda>t. Inr (t, []))
            else Inr ([], []))
           (\<lambda>e. Inr ([], [LogWarning (basename path) e])))"

definition extract_contacts :: "unicode \<Rightarrow> ustring \<Rightarrow> ustring \<times> ustring \<times> ustring" where
  "extract_contacts T txt =
     (let emails = findall T False EMAIL_REGEX txt;
          phones = findall T False PHONE_REGEX txt;
          name = (case emails of
                    [] \<Rightarrow> []
                  | e # _ \<Rightarrow>
                      (let user = (case str_split 64 e of [] \<Rightarrow> [] | u # _ \<Rightarrow> u);
                           parts = re_split T [Lit 46, Lit 95] user
                       in join (asc '' '') (map (capitalize T) (filter (\<lambda>p. p \<noteq> []) parts))))
      in (name, join (asc '', '') emails, join (asc '', '') phones))"

section \<open>Matching logic\<close>

record resume_record =
  Filename :: ustring
  Name :: ustring
  Email :: ustring
  Phone :: ustring
  Domain' :: ustring
  Tools :: ustring
  Skillset :: ustring
  Experience_Years :: pyfloat
  Experience_Match :: bool
  Matched_Keywords :: ustring
  Match_Percentage :: rat

definition matched :: "unicode \<Rightarrow> ustring list \<Rightarrow> ustring \<Rightarrow> ustring list" where
  \<comment> \<open>\<^verbatim>\<open>[kw for kw in terms if re.search(re.escape(kw), text, flags=re.IGNORECASE)]\<close>\<close>
  "matched T terms txt = filter (\<lambda>kw. re_search T True (re_escape kw) txt) terms"

definition experience_of :: "unicode \<Rightarrow> ustring \<Rightarrow> exn + pyfloat" where
  \<comment> \<open>lines 67 and 68: \<^verbatim>\<open>exp_nums\<close> and \<^verbatim>\<open>experience\<close>\<close>
  "experience_of T txt =
     ebind (map_exn (py_float T) (findall_group T True EXP_NUMBER EXP_UNIT txt)) (\<lambda>exp_nums.
     if exp_nums \<noteq> [] then py_max exp_nums else Inr (Fin 0))"

definition match_pct_of :: "ustring list \<Rightarrow> ustring list \<Rightarrow> exn + rat" where
  \<comment> \<open>line 70\<close>
  "match_pct_of matched_kw keywords =
     (if keywords \<noteq> []
      then ebind (py_div (length matched_kw) (length keywords)) (\<lambda>q. Inr (py_round (fmul q 100) 2))
      else Inr 0)"

definition exp_ok_of :: "pyfloat \<Rightarrow> rat option \<Rightarrow> bool \<Rightarrow> bool" where
  \<comment> \<open>lines 74 to 77; \<open>exp_req\<close> is \<^verbatim>\<open>None\<close> or a finite float\<close>
  "exp_ok_of experience exp_req relax =
     (case exp_req of
        None \<Rightarrow> True
      | Some r \<Rightarrow> (let req = (if relax \<and> r > 0 then fsub r 1 else r) in Fin req \<le> experience))"

definition make_record ::
  "unicode \<Rightarrow> ustring list \<Rightarrow> rat option \<Rightarrow> bool \<Rightarrow> ustring list \<Rightarrow> ustring list \<Rightarrow>
   ustring list \<Rightarrow> ustring \<Rightarrow> ustring \<Rightarrow> exn + resume_record" where
  \<comment> \<open>the body of the loop, lines 67 to 91, for the text of one path\<close>
  "make_record T keywords exp_req relax domains tools skillsets path txt =
     ebind (experience_of T txt) (\<lambda>experience.
     let matched_kw = matched T keywords txt
     in ebind (match_pct_of matched_kw keywords) (\<lambda>match_pct.
     let matched_domains = matched T domains txt;
         matched_tools = matched T tools txt;
         matched_skills = matched T skillsets txt;
         exp_ok = exp_ok_of experience exp_req relax;
         (name, email_addr, phone) = extract_contacts T txt
     in Inr \<lparr> Filename = basename path,
              Name = name,
              Email = email_addr,
              Phone = phone,
              Domain' = join (asc '';'') matched_domains,
              Tools = join (asc '';'') matched_tools,
              Skillset = join (asc '';'') matched_skills,
              Experience_Years = experience,
              Experience_Match = exp_ok,
              Matched_Keywords = join (asc '';'') matched_kw,
              Match_Percentage = match_pct \<rparr>))"

fun run_loop ::
  "unicode \<Rightarrow> env \<Rightarrow> ustring list \<Rightarrow> rat option \<Rightarrow> bool \<Rightarrow> ustring list \<Rightarrow> ustring list \<Rightarrow>
   ustring list \<Rightarrow> nat \<Rightarrow> nat \<Rightarrow> ustring list \<Rightarrow> resume_record list \<times> event list \<Rightarrow>
   exn + (resume_record list \<times> event list)" where
  \<comment> \<open>\<^verbatim>\<open>for i, path in enumerate(paths, 1)\<close>, with the list \<^verbatim>\<open>records\<close> and the events so far\<close>
  "run_loop T env keywords exp_req relax domains tools skillsets total' i [] st = Inr st"
| "run_loop T env keywords exp_req relax domains tools skillsets total' i (path # paths) st =
     ebind (extract_text_from_file T env path) (\<lambda>(txt, warnings).
     ebind (make_record T keywords exp_req relax domains tools skillsets path txt) (\<lambda>record.
     ebind (py_div i total') (\<lambda>fraction.
     run_loop T env keywords exp_req relax domains tools skillsets total' (i + 1) paths
       (fst st @ [record], snd st @ warnings @ [Progress fraction]))))"

definition run_matching ::
  "unicode \<Rightarrow> env \<Rightarrow> ustring list \<Rightarrow> ustring list \<Rightarrow> rat option \<Rightarrow> bool \<Rightarrow> ustring list \<Rightarrow>
   ustring list \<Rightarrow> ustring list \<Rightarrow> exn + (resume_record list \<times> event list)" where
  \<comment> \<open>the rows of the data frame returned, and the events (log lines, progress) emitted\<close>
  "run_matching T env paths keywords exp_req relax domains tools skillsets =
     (let total' = length paths
      in run_loop T env keywords exp_req relax domains tools skillsets total' 1 paths
           ([], [LogInfo total', Progress 0]))"


section \<open>The language of a regular expression\<close>

text \<open>
  The strings a pattern matches, defined without reference to the matcher, to say what
  the results of the matcher are.
\<close>

inductive_set star :: "ustring set \<Rightarrow> ustring set" for A :: "ustring set" where
  star_nil: "[] \<in> star A"
| star_app: "a \<in> A \<Longrightarrow> a \<noteq> [] \<Longrightarrow> w \<in> star A \<Longrightarrow> a @ w \<in> star A"

fun lang :: "unicode \<Rightarrow> bool \<Rightarrow> rx \<Rightarrow> ustring set" where
  "lang T ic Eps = {[]}"
| "lang T ic (Sym as) = {[c] | c. sym_match T ic as c}"
| "lang T ic (Seq r1 r2) = {a @ b | a b. a \<in> lang T ic r1 \<and> b \<in> lang T ic r2}"
| "lang T ic (Alt r1 r2) = lang T ic r1 \<union> lang T ic r2"
| "lang T ic (Star r) = star (lang T ic r)"

section \<open>The character database\<close>

text \<open>
  What the proofs below use of the Unicode character database, each line a fact of it.
  Among the code points below 128, \<^verbatim>\<open>\d\<close> matches the digits \<open>0\<close> to \<open>9\<close> (48 to 57),
  whose values are 0 to 9; \<^verbatim>\<open>\s\<close> matches the space, the characters 9 to 13 and the
  separators 28 to 31; \<^verbatim>\<open>\w\<close> matches the digits, the letters and the underscore (95).
  No character is both white space and a digit. Under \<^verbatim>\<open>re.IGNORECASE\<close> a literal of a
  pattern matches a digit or the dot (46) only if it is that very character, the dot
  matches nothing but the dot, and among the code points below 128 a literal matches a
  character exactly when the two are the same letter in either case or the same
  character. On a string of code points below 128, \<^verbatim>\<open>str.lower\<close> turns the letters \<open>A\<close>
  to \<open>Z\<close> into \<open>a\<close> to \<open>z\<close>, and \<^verbatim>\<open>str.capitalize\<close> turns the first character into
  upper case and the others into lower case.
\<close>

definition ascii :: "ustring \<Rightarrow> bool" where
  \<comment> \<open>a string of Basic Latin: all its code points are below 128\<close>
  "ascii s = list_all (\<lambda>c. c < 128) s"

definition ascii_lower :: "nat \<Rightarrow> nat" where
  "ascii_lower c = (if 65 \<le> c \<and> c \<le> 90 then c + 32 else c)"

definition ascii_upper :: "nat \<Rightarrow> nat" where
  "ascii_upper c = (if 97 \<le> c \<and> c \<le> 122 then c - 32 else c)"

definition unicode_ok :: "unicode \<Rightarrow> bool" where
  "unicode_ok T \<longleftrightarrow>
     (\<forall>c < 128. is_digit T c = (48 \<le> c \<and> c \<le> 57))
   \<and> (\<forall>c. 48 \<le> c \<and> c \<le> 57 \<longrightarrow> digit_value T c = c - 48)
   \<and> (\<forall>c < 128. is_space T c = (c = 32 \<or> (9 \<le> c \<and> c \<le> 13) \<or> (28 \<le> c \<and> c \<le> 31)))
   \<and> (\<forall>c < 128. is_word T c =
         ((48 \<le> c \<and> c \<le> 57) \<or> (65 \<le> c \<and> c \<le> 90) \<or> (97 \<le> c \<and> c \<le> 122) \<or> c = 95))
   \<and> (\<forall>c. is_space T c \<longrightarrow> \<not> is_digit T c)
   \<and> (\<forall>a c. ieq T a c \<and> is_digit T c \<longrightarrow> a = c)
   \<and> (\<forall>a c. ieq T a c \<and> (a = 46 \<or> c = 46) \<longrightarrow> a = c)
   \<and> (\<forall>a < 128. \<forall>c < 128. ieq T a c = (ascii_lower a = ascii_lower c))
   \<and> (\<forall>s. ascii s \<longrightarrow> lower T s = map ascii_lower s)
   \<and> (\<forall>s. ascii s \<longrightarrow>
         capitalize T s = (case s of [] \<Rightarrow> [] | c # cs \<Rightarrow> ascii_upper c # map ascii_lower cs))"

text \<open>
  The part of the database that concerns Basic Latin, the code points below 128. It
  satisfies \<open>unicode_ok\<close>, and on texts, terms and paths of Basic Latin every database
  that satisfies \<open>unicode_ok\<close> gives what it gives (section \<open>Texts of Basic Latin\<close> below);
  the examples, which are of this kind, are evaluated with it.
\<close>

definition basic_latin :: unicode where
  "basic_latin =
     \<lparr> is_digit = (\<lambda>c. 48 \<le> c \<and> c \<le> 57),
       is_space = (\<lambda>c. c = 32 \<or> (9 \<le> c \<and> c \<le> 13) \<or> (28 \<le> c \<and> c \<le> 31)),
       is_word = (\<lambda>c. (48 \<le> c \<and> c \<le> 57) \<or> (65 \<le> c \<and> c \<le> 90) \<or> (97 \<le> c \<and> c \<le> 122) \<or> c = 95),
       digit_value = (\<lambda>c. c - 48),
       ieq = (\<lambda>a c. ascii_lower a = ascii_lower c),
       lower = map ascii_lower,
       capitalize = (\<lambda>s. case s of [] \<Rightarrow> [] | c # cs \<Rightarrow> ascii_upper c # map ascii_lower cs) \<rparr>"

fun ascii_atom :: "atom \<Rightarrow> bool" where
  "ascii_atom (Lit a) = (a < 128)"
| "ascii_atom (Rng a b) = (b < 128)"
| "ascii_atom Digit = True"
| "ascii_atom Word = True"
| "ascii_atom Space = True"

fun ascii_rx :: "rx \<Rightarrow> bool" where
  \<comment> \<open>a pattern whose literals and ranges are of Basic Latin\<close>
  "ascii_rx Eps = True"
| "ascii_rx (Sym as) = list_all ascii_atom as"
| "ascii_rx (Seq r1 r2) = (ascii_rx r1 \<and> ascii_rx r2)"
| "ascii_rx (Alt r1 r2) = (ascii_rx r1 \<and> ascii_rx r2)"
| "ascii_rx (Star r) = ascii_rx r"

section \<open>Example inputs\<close>

definition broken_env :: env where
  \<comment> \<open>a world in which every library call fails\<close>
  "broken_env =
     \<lparr> pdf_extract = (\<lambda>p. Inl (LibraryError ''PDFSyntaxError'')),
       Document_paragraphs = (\<lambda>p. Inl (LibraryError ''PackageNotFoundError'')),
       ZipFile = (\<lambda>p. Inl (LibraryError ''BadZipFile'')),
       ET_fromstring = (\<lambda>b. Inl (LibraryError ''ParseError'')) \<rparr>"

definition fallback_env :: "(ustring \<rightharpoonup> string) \<Rightarrow> element \<Rightarrow> env" where
  \<comment> \<open>a world in which python-docx fails, the archive opens and its XML parses to \<open>tree\<close>\<close>
  "fallback_env z tree =
     \<lparr> pdf_extract = (\<lambda>p. Inl (LibraryError ''PDFSyntaxError'')),
       Document_paragraphs = (\<lambda>p. Inl (LibraryError ''PackageNotFoundError'')),
       ZipFile = (\<lambda>p. Inr z),
       ET_fromstring = (\<lambda>b. if b = ''<bad'' then Inl (LibraryError ''ParseError'') else Inr tree) \<rparr>"

section \<open>What the program returns\<close>

text \<open>
  The values the functions above return, written without the exception monad. The lemmas
  \<open>experience_of_Inr\<close>, \<open>match_pct_of_Inr\<close>, \<open>make_record_Inr\<close> and \<open>extract_Inr\<close> below
  show that the functions of the program return exactly these and never raise, whatever
  the text, for a database that satisfies \<open>unicode_ok\<close>.
\<close>


definition exp_nums :: "unicode \<Rightarrow> ustring \<Rightarrow> pyfloat list" where
  "exp_nums T txt =
     map (\<lambda>m. to_float (dec_value T m)) (findall_group T True EXP_NUMBER EXP_UNIT txt)"

definition experience :: "unicode \<Rightarrow> ustring \<Rightarrow> pyfloat" where
  "experience T txt = (if exp_nums T txt = [] then Fin 0 else Max (set (exp_nums T txt)))"

definition match_pct :: "unicode \<Rightarrow> ustring list \<Rightarrow> ustring \<Rightarrow> rat" where
  "match_pct T keywords txt =
     (if keywords = [] then 0
      else py_round (fmul (fl (of_nat (length (matched T keywords txt)) / of_nat (length keywords))) 100) 2)"

definition the_record ::
  "unicode \<Rightarrow> ustring list \<Rightarrow> rat option \<Rightarrow> bool \<Rightarrow> ustring list \<Rightarrow> ustring list \<Rightarrow>
   ustring list \<Rightarrow> ustring \<Rightarrow> ustring \<Rightarrow> resume_record" where
  "the_record T keywords exp_req relax domains tools skillsets path txt =
     \<lparr> Filename = basename path,
       Name = fst (extract_contacts T txt),
       Email = fst (snd (extract_contacts T txt)),
       Phone = snd (snd (extract_contacts T txt)),
       Domain' = join (asc '';'') (matched T domains txt),
       Tools = join (asc '';'') (matched T tools txt),
       Skillset = join (asc '';'') (matched T skillsets txt),
       Experience_Years = experience T txt,
       Experience_Match = exp_ok_of (experience T txt) exp_req relax,
       Matched_Keywords = join (asc '';'') (matched T keywords txt),
       Match_Percentage = match_pct T keywords txt \<rparr>"

definition text_of :: "unicode \<Rightarrow> env \<Rightarrow> ustring \<Rightarrow> ustring" where
  "text_of T env path =
     (case extract_text_from_file T env path of Inr (txt, w) \<Rightarrow> txt | Inl e \<Rightarrow> [])"

definition warnings_of :: "unicode \<Rightarrow> env \<Rightarrow> ustring \<Rightarrow> event list" where
  "warnings_of T env path =
     (case extract_text_from_file T env path of Inr (txt, w) \<Rightarrow> w | Inl e \<Rightarrow> [])"

section \<open>The fallback as the specification words it\<close>

definition is_t_tag :: "ustring \<Rightarrow> bool" where
  \<comment> \<open>the tag is \<open>t\<close>, namespace-qualified or not\<close>
  "is_t_tag tg = (endswith tg (asc ''}t'') \<or> tg = asc ''t'')"

definition t_fragments :: "element \<Rightarrow> ustring list" where
  \<comment> \<open>the texts of the elements with tag \<open>t\<close>, in document order; an element without text
      has none to give\<close>
  "t_fragments tree =
     concat (map (\<lambda>node. if is_t_tag (tag node)
                             then (case text' node of None \<Rightarrow> [] | Some t \<Rightarrow> if t = [] then [] else [t])
                             else [])
                 (iter tree))"

definition spec_fallback_text :: "element \<Rightarrow> ustring" where
  \<comment> \<open>the fragments joined with a single space as separator\<close>
  "spec_fallback_text tree = join (asc '' '') (t_fragments tree)"

definition hello_tree :: element where
  "hello_tree =
     Element (asc ''{w}document'') None
       [Element (asc ''{w}p'') None
          [Element (asc ''{w}t'') (Some (asc ''Hello'')) [], Element (asc ''{w}t'') None [],
           Element (asc ''t'') (Some (asc ''world'')) []]]"

section \<open>Name inference as the specification words it\<close>

definition is_name_sep :: "nat \<Rightarrow> bool" where
  \<comment> \<open>the dot or the underscore\<close>
  "is_name_sep c = (c = 46 \<or> c = 95)"

fun tokens_from :: "(nat \<Rightarrow> bool) \<Rightarrow> ustring \<Rightarrow> ustring \<Rightarrow> ustring list" where
  \<comment> \<open>reading left to right, \<open>cur\<close> being the token read so far\<close>
  "tokens_from sep cur [] = (if cur = [] then [] else [cur])"
| "tokens_from sep cur (c # cs) =
     (if sep c then (if cur = [] then tokens_from sep [] cs else cur # tokens_from sep [] cs)
      else tokens_from sep (cur @ [c]) cs)"

definition tokens :: "(nat \<Rightarrow> bool) \<Rightarrow> ustring \<Rightarrow> ustring list" where
  \<comment> \<open>the maximal non-empty runs of characters that are not separators\<close>
  "tokens sep s = tokens_from sep [] s"

definition local_part :: "ustring \<Rightarrow> ustring" where
  \<comment> \<open>what stands before the first \<open>@\<close>\<close>
  "local_part e = takeWhile (\<lambda>c. c \<noteq> 64) e"

definition cap_first :: "unicode \<Rightarrow> ustring \<Rightarrow> ustring" where
  \<comment> \<open>the first letter made a capital, the rest as it is\<close>
  "cap_first T s = (case s of [] \<Rightarrow> [] | c # cs \<Rightarrow> capitalize T [c] @ cs)"

definition spec_infer_name :: "unicode \<Rightarrow> ustring \<Rightarrow> ustring" where
  \<comment> \<open>local part of the first email, split on \<open>.\<close> or \<open>_\<close>, first letter of each token
      capitalized, joined with single spaces; empty without an email\<close>
  "spec_infer_name T txt =
     (case findall T False EMAIL_REGEX txt of
        [] \<Rightarrow> []
      | e # _ \<Rightarrow> join (asc '' '') (map (cap_first T) (tokens is_name_sep (local_part e))))"

definition email_char :: "unicode \<Rightarrow> nat \<Rightarrow> bool" where
  \<comment> \<open>the class \<^verbatim>\<open>[\w\.-]\<close>\<close>
  "email_char T c = (is_word T c \<or> c = 46 \<or> c = 45)"

definition is_letter :: "nat \<Rightarrow> bool" where
  \<comment> \<open>the class \<^verbatim>\<open>[a-zA-Z]\<close>\<close>
  "is_letter c = ((97 \<le> c \<and> c \<le> 122) \<or> (65 \<le> c \<and> c \<le> 90))"

section \<open>Occurrences in a text\<close>



definition decimal_strings :: "unicode \<Rightarrow> ustring set" where
  \<comment> \<open>a decimal number: digits, then possibly a point and more digits\<close>
  "decimal_strings T =
     {ip @ fp' | ip fp'. ip \<noteq> [] \<and> list_all (is_digit T) ip \<and>
        (fp' = [] \<or> (\<exists>fp. fp' = 46 # fp \<and> fp \<noteq> [] \<and> list_all (is_digit T) fp))}"

definition unit_strings :: "unicode \<Rightarrow> ustring set" where
  \<comment> \<open>optional white space and one of the tokens, each of its letters matched without
      regard to case\<close>
  "unit_strings T =
     {ws @ u | ws u. list_all (is_space T) ws \<and>
        (list_all2 (ieq T) (asc ''years'') u \<or> list_all2 (ieq T) (asc ''yrs'') u
         \<or> list_all2 (ieq T) (asc ''year'') u)}"

text \<open>
  \<open>scanned_group G R txt gs\<close>: the list \<open>gs\<close> holds, from left to right, the \<open>G\<close> parts of
  the occurrences in \<open>txt\<close> of a string of \<open>G\<close> immediately followed by a string of \<open>R\<close>,
  occurrences that do not overlap being taken as in \<open>scanned\<close>.
\<close>

inductive scanned_group :: "ustring set \<Rightarrow> ustring set \<Rightarrow> ustring \<Rightarrow> ustring list \<Rightarrow> bool"
  for G :: "ustring set" and R :: "ustring set" where
  scanned_group_none:
    "(\<And>pre g u post. s = pre @ g @ u @ post \<Longrightarrow> g \<in> G \<Longrightarrow> u \<notin> R) \<Longrightarrow> scanned_group G R s []"
| scanned_group_match:
    "g \<in> G \<Longrightarrow> u \<in> R \<Longrightarrow>
     (\<And>pre1 pre2 g' u' post'. pre = pre1 @ pre2 \<Longrightarrow> pre2 \<noteq> [] \<Longrightarrow>
        pre2 @ g @ u @ post = g' @ u' @ post' \<Longrightarrow> g' \<in> G \<Longrightarrow> u' \<notin> R) \<Longrightarrow>
     scanned_group G R post gs \<Longrightarrow> scanned_group G R (pre @ g @ u @ post) (g # gs)"

definition numchar :: "unicode \<Rightarrow> nat \<Rightarrow> bool" where
  \<comment> \<open>a character of a decimal number: a digit or the point\<close>
  "numchar T c = (is_digit T c \<or> c = 46)"

section \<open>The matcher computes the language\<close>

declare rmatch.simps(5) [simp del]

lemma rmatch_star_set:
  "set (rmatch T ic (Star r) s) =
     insert s (\<Union>s1 \<in> {s1 \<in> set (rmatch T ic r s). length s1 < length s}. set (rmatch T ic (Star r) s1))"
  by (subst rmatch.simps(5)) auto

lemma rmatch_lang: "set (rmatch T ic r s) = {s'. \<exists>m. m \<in> lang T ic r \<and> s = m @ s'}"
proof (induction T ic r s rule: rmatch.induct)
  case (1 T ic s)
  show ?case by auto
next
  case (2 T ic as s)
  show ?case by (cases s) auto
next
  case (3 T ic r1 r2 s)
  show ?case
  proof (intro set_eqI iffI)
    fix x assume "x \<in> set (rmatch T ic (Seq r1 r2) s)"
    then obtain s1 where s1: "s1 \<in> set (rmatch T ic r1 s)" and x: "x \<in> set (rmatch T ic r2 s1)"
      by auto
    from s1 "3.IH"(1) obtain a where a: "a \<in> lang T ic r1" "s = a @ s1" by auto
    from x "3.IH"(2)[OF s1] obtain b where b: "b \<in> lang T ic r2" "s1 = b @ x" by auto
    from a b have "a @ b \<in> lang T ic (Seq r1 r2)" "s = (a @ b) @ x" by auto
    then show "x \<in> {s'. \<exists>m. m \<in> lang T ic (Seq r1 r2) \<and> s = m @ s'}" by blast
  next
    fix x assume "x \<in> {s'. \<exists>m. m \<in> lang T ic (Seq r1 r2) \<and> s = m @ s'}"
    then obtain a b where ab: "a \<in> lang T ic r1" "b \<in> lang T ic r2" "s = (a @ b) @ x" by auto
    then have s1: "b @ x \<in> set (rmatch T ic r1 s)" using "3.IH"(1) by auto
    have "x \<in> set (rmatch T ic r2 (b @ x))" using "3.IH"(2)[OF s1] ab by auto
    with s1 show "x \<in> set (rmatch T ic (Seq r1 r2) s)" by auto
  qed
next
  case (4 T ic r1 r2 s)
  then show ?case by auto
next
  case (5 T ic r s)
  show ?case
  proof (intro set_eqI iffI)
    fix x assume "x \<in> set (rmatch T ic (Star r) s)"
    then consider "x = s" | s1 where "s1 \<in> set (rmatch T ic r s)" "length s1 < length s" "x \<in> set (rmatch T ic (Star r) s1)"
      unfolding rmatch_star_set [of T ic r s] by blast
    then show "x \<in> {s'. \<exists>m. m \<in> lang T ic (Star r) \<and> s = m @ s'}"
    proof cases
      case 1
      then show ?thesis by (auto intro: star_nil)
    next
      case 2
      from 2(1) "5.IH"(1) obtain a where a: "a \<in> lang T ic r" "s = a @ s1" by auto
      from "5.IH"(2)[OF 2(1) 2(2)] 2(3) obtain w where w: "w \<in> star (lang T ic r)" "s1 = w @ x" by auto
      from a 2(2) have "a \<noteq> []" by auto
      with a w have "a @ w \<in> star (lang T ic r)" by (auto intro: star_app)
      moreover have "s = (a @ w) @ x" using a w by simp
      ultimately show ?thesis by auto
    qed
  next
    fix x assume "x \<in> {s'. \<exists>m. m \<in> lang T ic (Star r) \<and> s = m @ s'}"
    then obtain m where m: "m \<in> star (lang T ic r)" "s = m @ x" by auto
    from m(1) show "x \<in> set (rmatch T ic (Star r) s)"
    proof (cases rule: star.cases)
      case star_nil
      with m show ?thesis unfolding rmatch_star_set [of T ic r s] by simp
    next
      case (star_app a w)
      have s1: "w @ x \<in> set (rmatch T ic r s)" using "5.IH"(1) star_app m by auto
      have len: "length (w @ x) < length s" using star_app m by auto
      have "x \<in> set (rmatch T ic (Star r) (w @ x))" using "5.IH"(2)[OF s1 len] star_app by auto
      with s1 len show ?thesis unfolding rmatch_star_set [of T ic r s] by blast
    qed
  qed
qed

lemma head_option_None: "(case xs of [] \<Rightarrow> None | p # _ \<Rightarrow> Some p) = None \<longleftrightarrow> set xs = {}"
  by (cases xs) simp_all

lemma first_match_Some:
  "first_match T ic r s = Some s' \<Longrightarrow> \<exists>m. m \<in> lang T ic r \<and> s = m @ s'"
proof -
  assume "first_match T ic r s = Some s'"
  then have "s' \<in> set (rmatch T ic r s)"
    by (auto simp: first_match_def split: list.splits)
  then show ?thesis unfolding rmatch_lang by simp
qed

lemma first_match_None:
  "first_match T ic r s = None \<longleftrightarrow> (\<forall>m s'. s = m @ s' \<longrightarrow> m \<notin> lang T ic r)"
proof -
  have "first_match T ic r s = None \<longleftrightarrow> set (rmatch T ic r s) = {}"
    by (auto simp: first_match_def split: list.splits)
  then show ?thesis unfolding rmatch_lang by auto
qed

lemma first_match_group_Some:
  assumes "first_match_group T ic g r s = Some (s1, s2)"
  shows "\<exists>m u. m \<in> lang T ic g \<and> u \<in> lang T ic r \<and> s = m @ s1 \<and> s1 = u @ s2"
proof -
  let ?ps = "concat (map (\<lambda>s1. map (\<lambda>s2. (s1, s2)) (rmatch T ic r s1)) (rmatch T ic g s))"
  from assms obtain rest where "?ps = (s1, s2) # rest"
    by (auto simp: first_match_group_def split: list.splits)
  then have "(s1, s2) \<in> set ?ps" by (metis list.set_intros(1))
  then have "s1 \<in> set (rmatch T ic g s)" "s2 \<in> set (rmatch T ic r s1)" by auto
  then show ?thesis unfolding rmatch_lang by auto
qed

lemma first_match_group_None:
  "first_match_group T ic g r s = None \<longleftrightarrow> (\<forall>m u s'. s = m @ u @ s' \<longrightarrow> m \<in> lang T ic g \<longrightarrow> u \<notin> lang T ic r)"
proof -
  let ?ps = "concat (map (\<lambda>s1. map (\<lambda>s2. (s1, s2)) (rmatch T ic r s1)) (rmatch T ic g s))"
  have "first_match_group T ic g r s = None \<longleftrightarrow> set ?ps = {}"
    unfolding first_match_group_def by (rule head_option_None)
  also have "\<dots> \<longleftrightarrow> (\<forall>s1 \<in> set (rmatch T ic g s). set (rmatch T ic r s1) = {})" by auto
  finally have "first_match_group T ic g r s = None \<longleftrightarrow>
        (\<forall>s1 \<in> set (rmatch T ic g s). set (rmatch T ic r s1) = {})" .
  then show ?thesis unfolding rmatch_lang by auto
qed

lemma findall_in_lang: "e \<in> set (findall T ic r s) \<Longrightarrow> e \<in> lang T ic r"
proof (induction T ic r s rule: findall.induct)
  case (1 T ic r s)
  show ?case
  proof (cases "first_match T ic r s")
    case None
    with 1 show ?thesis by (cases s) (auto simp: findall.simps [of T ic r s])
  next
    case (Some s')
    from first_match_Some [OF Some] obtain m where m: "m \<in> lang T ic r" "s = m @ s'" by auto
    then have tk: "take (length s - length s') s = m" by simp
    show ?thesis
    proof (cases "length s' < length s")
      case True
      with 1 Some tk m show ?thesis by (auto simp: findall.simps [of T ic r s])
    next
      case False
      with 1 Some tk m show ?thesis by (cases s) (auto simp: findall.simps [of T ic r s])
    qed
  qed
qed

lemma findall_group_in_lang: "e \<in> set (findall_group T ic g r s) \<Longrightarrow> e \<in> lang T ic g"
proof (induction T ic g r s rule: findall_group.induct)
  case (1 T ic g r s)
  show ?case
  proof (cases "first_match_group T ic g r s")
    case None
    with 1 show ?thesis by (cases s) (auto simp: findall_group.simps [of T ic g r s])
  next
    case (Some p)
    obtain s1 s2 where p: "p = (s1, s2)" by (cases p)
    from first_match_group_Some [OF Some [unfolded p]] obtain m u
      where m: "m \<in> lang T ic g" "s = m @ s1" "s1 = u @ s2" by auto
    then have tk: "take (length s - length s1) s = m" by simp
    show ?thesis
    proof (cases "length s2 < length s")
      case True
      with 1 Some p tk m show ?thesis by (auto simp: findall_group.simps [of T ic g r s])
    next
      case False
      with 1 Some p tk m show ?thesis by (cases s) (auto simp: findall_group.simps [of T ic g r s])
    qed
  qed
qed
subsection \<open>Text extraction case by case\<close>

lemma extract_cases:
  "extract_text_from_file T env path =
     (if lower T (snd (splitext path)) = asc ''.pdf'' then
        (case pdf_extract env path of
           Inl e \<Rightarrow> Inr ([], [LogWarning (basename path) e])
         | Inr t \<Rightarrow> Inr (t, []))
      else if lower T (snd (splitext path)) = asc ''.docx'' then
        (case Document_paragraphs env path of
           Inr ps \<Rightarrow> Inr (join [10] ps, [])
         | Inl e \<Rightarrow>
             (case docx_fallback env path of
                Inl e' \<Rightarrow> Inr ([], [LogWarning (basename path) e'])
              | Inr t \<Rightarrow> Inr (t, [])))
      else Inr ([], []))"
  by (simp add: extract_text_from_file_def try_except_def ebind_def Let_def split: sum.splits)

lemma docx_fallback_cases:
  "docx_fallback env path =
     (case ZipFile env path of
        Inl e \<Rightarrow> Inl e
      | Inr z \<Rightarrow>
          (case z (asc ''word/document.xml'') of
             None \<Rightarrow> Inl KeyError
           | Some xml \<Rightarrow>
               (case ET_fromstring env xml of
                  Inl e \<Rightarrow> Inl e
                | Inr tree \<Rightarrow> Inr (collect_text [] (iter tree)))))"
  by (simp add: docx_fallback_def ebind_def zip_read_def split: sum.splits option.splits)

subsection \<open>The languages of the patterns\<close>

lemma star_sym: "star {[c] | c. P c} = {m. list_all P m}"
proof (intro set_eqI iffI)
  fix m assume "m \<in> star {[c] | c. P c}"
  then show "m \<in> {m. list_all P m}"
    by (induction rule: star.induct) auto
next
  fix m assume "m \<in> {m. list_all P m}"
  then have "list_all P m" by simp
  then show "m \<in> star {[c] | c. P c}"
  proof (induction m)
    case Nil
    show ?case by (rule star_nil)
  next
    case (Cons c m)
    then have "[c] \<in> {[c] | c. P c}" "m \<in> star {[c] | c. P c}" by auto
    from star_app [OF this(1) _ this(2)] show ?case by simp
  qed
qed

lemma lang_Star_Sym: "lang T ic (Star (Sym as)) = {m. list_all (sym_match T ic as) m}"
  by (simp add: star_sym)

lemma lang_Seq_Sym:
  "lang T ic (Seq (Sym as) r) = {c # b | c b. sym_match T ic as c \<and> b \<in> lang T ic r}"
proof (intro set_eqI iffI)
  fix m assume "m \<in> {c # b | c b. sym_match T ic as c \<and> b \<in> lang T ic r}"
  then obtain c b where "m = [c] @ b" "sym_match T ic as c" "b \<in> lang T ic r" by auto
  then show "m \<in> lang T ic (Seq (Sym as) r)" unfolding lang.simps by blast
qed auto

lemma lang_Plus_Sym: "lang T ic (Plus (Sym as)) = {m. m \<noteq> [] \<and> list_all (sym_match T ic as) m}"
proof (intro set_eqI iffI)
  fix m assume "m \<in> lang T ic (Plus (Sym as))"
  then show "m \<in> {m. m \<noteq> [] \<and> list_all (sym_match T ic as) m}"
    unfolding Plus_def lang_Seq_Sym lang_Star_Sym by auto
next
  fix m assume "m \<in> {m. m \<noteq> [] \<and> list_all (sym_match T ic as) m}"
  then obtain c b where "m = c # b" "sym_match T ic as c" "list_all (sym_match T ic as) b"
    by (cases m) auto
  then show "m \<in> lang T ic (Plus (Sym as))"
    unfolding Plus_def lang_Seq_Sym lang_Star_Sym by auto
qed

lemma lang_AtLeast_Sym:
  "lang T ic (AtLeast n (Sym as)) = {m. n \<le> length m \<and> list_all (sym_match T ic as) m}"
proof (induction n)
  case 0
  show ?case by (simp add: star_sym)
next
  case (Suc n)
  show ?case
  proof (intro set_eqI iffI)
    fix m assume "m \<in> {m. Suc n \<le> length m \<and> list_all (sym_match T ic as) m}"
    then obtain c b where "m = c # b" "sym_match T ic as c" "n \<le> length b" "list_all (sym_match T ic as) b"
      by (cases m) auto
    then show "m \<in> lang T ic (AtLeast (Suc n) (Sym as))"
      unfolding AtLeast.simps lang_Seq_Sym Suc by auto
  next
    fix m assume "m \<in> lang T ic (AtLeast (Suc n) (Sym as))"
    then show "m \<in> {m. Suc n \<le> length m \<and> list_all (sym_match T ic as) m}"
      unfolding AtLeast.simps lang_Seq_Sym Suc by auto
  qed
qed

lemma Str_Cons: "Str (a # kw) = Seq (Sym [Lit a]) (Str kw)"
  by (simp add: Str_def)

lemma lang_Str: "lang T ic (Str kw) = {m. list_all2 (\<lambda>a c. atom_match T ic (Lit a) c) kw m}"
proof (induction kw)
  case Nil
  show ?case by (simp add: Str_def)
next
  case (Cons a kw)
  have s: "sym_match T ic [Lit a] c = atom_match T ic (Lit a) c" for c
    by (simp add: sym_match_def)
  show ?case
    unfolding Str_Cons lang_Seq_Sym Cons s
    by (auto simp only: list_all2_Cons1 mem_Collect_eq)
qed

lemma sym_digit [simp]: "sym_match T ic [Digit] c = is_digit T c"
  by (simp add: sym_match_def)

lemma ok_digit: "unicode_ok T \<Longrightarrow> c < 128 \<Longrightarrow> is_digit T c = (48 \<le> c \<and> c \<le> 57)"
  by (simp add: unicode_ok_def)

lemma ok_digit_value: "unicode_ok T \<Longrightarrow> 48 \<le> c \<Longrightarrow> c \<le> 57 \<Longrightarrow> digit_value T c = c - 48"
  by (simp add: unicode_ok_def)

lemma ok_space:
  "unicode_ok T \<Longrightarrow> c < 128 \<Longrightarrow>
   is_space T c = (c = 32 \<or> (9 \<le> c \<and> c \<le> 13) \<or> (28 \<le> c \<and> c \<le> 31))"
  by (simp add: unicode_ok_def)

lemma ok_word:
  "unicode_ok T \<Longrightarrow> c < 128 \<Longrightarrow>
   is_word T c = ((48 \<le> c \<and> c \<le> 57) \<or> (65 \<le> c \<and> c \<le> 90) \<or> (97 \<le> c \<and> c \<le> 122) \<or> c = 95)"
  by (simp add: unicode_ok_def)

lemma ok_space_digit: "unicode_ok T \<Longrightarrow> is_space T c \<Longrightarrow> \<not> is_digit T c"
  by (simp add: unicode_ok_def)

lemma ok_ieq_digit: "unicode_ok T \<Longrightarrow> ieq T a c \<Longrightarrow> is_digit T c \<Longrightarrow> a = c"
  unfolding unicode_ok_def by blast

lemma ok_ieq_dot: "unicode_ok T \<Longrightarrow> ieq T a c \<Longrightarrow> a = 46 \<or> c = 46 \<Longrightarrow> a = c"
  unfolding unicode_ok_def by blast

lemma ok_ieq_ascii:
  "unicode_ok T \<Longrightarrow> a < 128 \<Longrightarrow> c < 128 \<Longrightarrow> ieq T a c = (ascii_lower a = ascii_lower c)"
  by (simp add: unicode_ok_def)

lemma ok_lower: "unicode_ok T \<Longrightarrow> ascii s \<Longrightarrow> lower T s = map ascii_lower s"
  by (simp add: unicode_ok_def)

lemma ok_capitalize:
  "unicode_ok T \<Longrightarrow> ascii s \<Longrightarrow>
   capitalize T s = (case s of [] \<Rightarrow> [] | c # cs \<Rightarrow> ascii_upper c # map ascii_lower cs)"
  by (simp add: unicode_ok_def)

lemma basic_latin_ok: "unicode_ok basic_latin"
  unfolding unicode_ok_def basic_latin_def
  by (auto simp: ascii_lower_def split: if_splits)

lemma not_digit_dot: "unicode_ok T \<Longrightarrow> \<not> is_digit T 46"
  by (simp add: ok_digit)

lemma atom_match_dot: "unicode_ok T \<Longrightarrow> atom_match T ic (Lit 46) c \<longleftrightarrow> c = 46"
  using ok_ieq_dot [of T 46 c] ok_ieq_ascii [of T 46 46] by auto

lemma sym_lit: "sym_match T ic [Lit a] c = atom_match T ic (Lit a) c"
  by (simp add: sym_match_def)

lemma lang_EXP_NUMBER:
  assumes ok: "unicode_ok T"
  shows "lang T ic EXP_NUMBER =
     {ip @ fp' | ip fp'. ip \<noteq> [] \<and> list_all (is_digit T) ip \<and>
        (fp' = [] \<or> (\<exists>fp. fp' = 46 # fp \<and> fp \<noteq> [] \<and> list_all (is_digit T) fp))}"
proof -
  have opt: "lang T ic (Opt (Seq (Sym [Lit 46]) (Plus (Sym [Digit])))) =
      {fp'. fp' = [] \<or> (\<exists>fp. fp' = 46 # fp \<and> fp \<noteq> [] \<and> list_all (is_digit T) fp)}"
    unfolding Opt_def lang.simps(4) lang.simps(1) lang_Seq_Sym lang_Plus_Sym sym_digit sym_lit
      atom_match_dot [OF ok]
    by blast
  show ?thesis
    unfolding EXP_NUMBER_def lang.simps(3) opt lang_Plus_Sym sym_digit
    by blast
qed

subsection \<open>Parsing the numbers found never fails\<close>

lemma takeWhile_digits:
  "\<not> is_digit T 46 \<Longrightarrow> list_all (is_digit T) ip \<Longrightarrow> takeWhile (is_digit T) (ip @ 46 # fp) = ip"
  by (induction ip) auto

lemma dropWhile_digits:
  "\<not> is_digit T 46 \<Longrightarrow> list_all (is_digit T) ip \<Longrightarrow> dropWhile (is_digit T) (ip @ 46 # fp) = 46 # fp"
  by (induction ip) auto

lemma takeWhile_all: "list_all P xs \<Longrightarrow> takeWhile P xs = xs"
  by (induction xs) auto

lemma dropWhile_all: "list_all P xs \<Longrightarrow> dropWhile P xs = []"
  by (induction xs) auto

lemma is_decimal_lang:
  assumes ok: "unicode_ok T" and "m \<in> lang T ic EXP_NUMBER"
  shows "is_decimal T m"
proof -
  note nd = not_digit_dot [OF ok]
  from assms obtain ip fp' where m: "m = ip @ fp'" "ip \<noteq> []" "list_all (is_digit T) ip"
    and fp': "fp' = [] \<or> (\<exists>fp. fp' = 46 # fp \<and> fp \<noteq> [] \<and> list_all (is_digit T) fp)"
    unfolding lang_EXP_NUMBER [OF ok] by blast
  from fp' show ?thesis
  proof
    assume "fp' = []"
    with m show ?thesis by (simp add: is_decimal_def takeWhile_all dropWhile_all)
  next
    assume "\<exists>fp. fp' = 46 # fp \<and> fp \<noteq> [] \<and> list_all (is_digit T) fp"
    then obtain fp where "fp' = 46 # fp" "fp \<noteq> []" "list_all (is_digit T) fp" by blast
    with m nd show ?thesis by (simp add: is_decimal_def takeWhile_digits dropWhile_digits)
  qed
qed

lemma py_float_lang:
  "unicode_ok T \<Longrightarrow> m \<in> lang T ic EXP_NUMBER \<Longrightarrow> py_float T m = Inr (to_float (dec_value T m))"
  by (simp add: py_float_def is_decimal_lang)

lemma map_exn_Inr: "(\<And>x. x \<in> set xs \<Longrightarrow> f x = Inr (g x)) \<Longrightarrow> map_exn f xs = Inr (map g xs)"
  by (induction xs) (simp_all add: ebind_def)

lemma exp_nums_Inr:
  assumes ok: "unicode_ok T"
  shows "map_exn (py_float T) (findall_group T True EXP_NUMBER EXP_UNIT txt) =
     Inr (map (\<lambda>m. to_float (dec_value T m)) (findall_group T True EXP_NUMBER EXP_UNIT txt))"
  by (rule map_exn_Inr) (rule py_float_lang [OF ok], erule findall_group_in_lang)
subsection \<open>The loop never raises\<close>

lemma foldl_max: "foldl (\<lambda>m y. if m < y then y else m) (x :: pyfloat) xs = Max (set (x # xs))"
proof (induction xs arbitrary: x)
  case Nil
  show ?case by simp
next
  case (Cons y ys)
  have "(if x < y then y else x) = max x y" by (auto simp: max_def)
  moreover have "Max (set (max x y # ys)) = Max (set (x # y # ys))"
  proof (cases "ys = []")
    case True
    then show ?thesis by simp
  next
    case False
    then show ?thesis by (simp add: max.assoc)
  qed
  ultimately show ?case using Cons [of "max x y"] by simp
qed

lemma py_max_Max: "xs \<noteq> [] \<Longrightarrow> py_max xs = Inr (Max (set xs))"
  by (cases xs) (simp_all add: foldl_max del: set_simps)

lemma experience_of_Inr:
  assumes ok: "unicode_ok T"
  shows "experience_of T txt = Inr (experience T txt)"
  unfolding experience_of_def exp_nums_Inr [OF ok] exp_nums_def [symmetric] experience_def
  by (simp add: ebind_def py_max_Max)

lemma match_pct_of_Inr: "match_pct_of (matched T keywords txt) keywords = Inr (match_pct T keywords txt)"
  by (simp add: match_pct_of_def match_pct_def py_div_def ebind_def)

lemma make_record_Inr:
  assumes ok: "unicode_ok T"
  shows "make_record T keywords exp_req relax domains tools skillsets path txt =
     Inr (the_record T keywords exp_req relax domains tools skillsets path txt)"
  unfolding make_record_def experience_of_Inr [OF ok]
  by (simp add: ebind_def Let_def match_pct_of_Inr the_record_def split: prod.splits)

lemma extract_Inr: "extract_text_from_file T env path = Inr (text_of T env path, warnings_of T env path)"
  unfolding text_of_def warnings_of_def extract_cases
  by (simp split: sum.splits)

lemma run_loop_Inr:
  "unicode_ok T \<Longrightarrow> total' \<noteq> 0 \<Longrightarrow>
   \<exists>evs. run_loop T env keywords exp_req relax domains tools skillsets total' i paths st =
     Inr (fst st @ map (\<lambda>p. the_record T keywords exp_req relax domains tools skillsets p (text_of T env p)) paths, evs)"
proof (induction paths arbitrary: i st)
  case Nil
  show ?case by (cases st) simp
next
  case (Cons path paths)
  let ?st = "(fst st @ [the_record T keywords exp_req relax domains tools skillsets path (text_of T env path)],
              snd st @ warnings_of T env path @ [Progress (fl (of_nat i / of_nat total'))])"
  from Cons.IH [OF Cons.prems, of "i + 1" ?st] obtain evs where
    "run_loop T env keywords exp_req relax domains tools skillsets total' (i + 1) paths ?st =
     Inr (fst ?st @ map (\<lambda>p. the_record T keywords exp_req relax domains tools skillsets p (text_of T env p)) paths, evs)"
    by blast
  with Cons.prems show ?case
    by (simp add: extract_Inr make_record_Inr ebind_def py_div_def)
qed

lemma run_matching_Inr:
  assumes ok: "unicode_ok T"
  shows "\<exists>evs. run_matching T env paths keywords exp_req relax domains tools skillsets =
     Inr (map (\<lambda>p. the_record T keywords exp_req relax domains tools skillsets p (text_of T env p)) paths, evs)"
proof (cases "paths = []")
  case True
  then show ?thesis by (simp add: run_matching_def)
next
  case False
  then have "length paths \<noteq> 0" by simp
  from run_loop_Inr [OF ok this, where i = 1 and paths = paths
      and st = "([], [LogInfo (length paths), Progress 0])"]
  show ?thesis by (simp add: run_matching_def Let_def)
qed

subsection \<open>The record of an empty text\<close>

lemma re_search_empty: "re_search T True (re_escape kw) [] \<longleftrightarrow> kw = []"
proof -
  have "first_match T True (Str kw) [] \<noteq> None \<longleftrightarrow> [] \<in> lang T True (Str kw)"
    unfolding first_match_None by auto
  also have "\<dots> \<longleftrightarrow> kw = []" unfolding lang_Str by simp
  finally show ?thesis by (simp add: re_escape_def)
qed

lemma matched_empty_text: "[] \<notin> set terms \<Longrightarrow> matched T terms [] = []"
  unfolding matched_def re_search_empty by (induction terms) auto

lemma extract_contacts_empty: "extract_contacts T [] = ([], [], [])"
  by code_simp

lemma experience_empty: "experience T [] = Fin 0"
proof -
  have "findall_group T True EXP_NUMBER EXP_UNIT [] = []" by code_simp
  then show ?thesis by (simp add: experience_def exp_nums_def)
qed

lemma fl_0: "fl 0 = 0"
  by (simp add: fl_def)

lemma rhe_0: "rhe 0 = 0"
  by (simp add: rhe_def)

lemma match_pct_empty_text: "[] \<notin> set keywords \<Longrightarrow> match_pct T keywords [] = 0"
  by (simp add: match_pct_def matched_empty_text fmul_def py_round_def fl_0 rhe_0)

lemma the_record_empty_text:
  "Name (the_record T keywords exp_req relax domains tools skillsets path []) = []
   \<and> Email (the_record T keywords exp_req relax domains tools skillsets path []) = []
   \<and> Phone (the_record T keywords exp_req relax domains tools skillsets path []) = []
   \<and> Experience_Years (the_record T keywords exp_req relax domains tools skillsets path []) = Fin 0"
  by (simp add: the_record_def extract_contacts_empty experience_empty)

lemma the_record_empty_text_terms:
  "[] \<notin> set keywords \<Longrightarrow>
   Matched_Keywords (the_record T keywords exp_req relax domains tools skillsets path []) = []
   \<and> Match_Percentage (the_record T keywords exp_req relax domains tools skillsets path []) = 0"
  by (simp add: the_record_def matched_empty_text match_pct_empty_text)

lemma the_record_Filename:
  "Filename (the_record T keywords exp_req relax domains tools skillsets path txt) = basename path"
  by (simp add: the_record_def)
subsection \<open>Rounding keeps the bounds 0, 1 and 100\<close>

lemma pow2_pos: "0 < pow2 e"
  by (simp add: pow2_def)

lemma rhe_le: "x \<le> of_int k \<Longrightarrow> rhe x \<le> k"
proof -
  assume a: "x \<le> of_int k"
  then have f: "\<lfloor>x\<rfloor> \<le> k" by (simp add: floor_le_iff)
  show ?thesis
  proof (cases "\<lfloor>x\<rfloor> = k")
    case True
    then have "of_int k \<le> x" using of_int_floor_le [of x] by simp
    with a have "x = of_int k" by simp
    then show ?thesis by (simp add: rhe_def)
  next
    case False
    with f have "\<lfloor>x\<rfloor> + 1 \<le> k" by simp
    then show ?thesis by (auto simp: rhe_def Let_def)
  qed
qed

lemma rhe_ge: "of_int k \<le> x \<Longrightarrow> k \<le> rhe x"
proof -
  assume "of_int k \<le> x"
  then have "k \<le> \<lfloor>x\<rfloor>" by (simp add: le_floor_iff)
  then show ?thesis by (auto simp: rhe_def Let_def)
qed

lemma fl_nonneg: "0 \<le> x \<Longrightarrow> 0 \<le> fl x"
proof -
  assume "0 \<le> x"
  then have "of_int 0 \<le> x / pow2 (ulp_exp x)" using pow2_pos [of "ulp_exp x"] by simp
  then have "0 \<le> rhe (x / pow2 (ulp_exp x))" by (rule rhe_ge)
  then show ?thesis using pow2_pos [of "ulp_exp x"] by (simp add: fl_def)
qed

lemma ilog2_le: "0 < x \<Longrightarrow> x \<le> 100 \<Longrightarrow> ilog2 x \<le> 6"
proof -
  assume x: "0 < x" "x \<le> 100"
  show ?thesis
  proof (cases "1 \<le> x")
    case True
    have "\<lfloor>x\<rfloor> \<le> 100" using x by (simp add: floor_le_iff) 
    then have "\<lfloor>x\<rfloor> < 2 ^ nat 7" by simp
    then have "bitlen \<lfloor>x\<rfloor> \<le> 7" by (simp add: bitlen_le_iff_power)
    with True show ?thesis by (simp add: ilog2_def)
  next
    case False
    then show ?thesis using bitlen_nonneg [of "\<lceil>1 / x\<rceil> - 1"] by (simp add: ilog2_def)
  qed
qed

lemma ulp_exp_le: "0 < x \<Longrightarrow> x \<le> 100 \<Longrightarrow> ulp_exp x \<le> 0"
  using ilog2_le [of x] by (simp add: ulp_exp_def)

lemma fl_le_int:
  assumes "0 < x" "x \<le> of_int d" "ulp_exp x \<le> 0"
  shows "fl x \<le> of_int d"
proof -
  let ?e = "ulp_exp x"
  have p: "pow2 ?e = 1 / 2 ^ nat (- ?e)" using assms(3)
    by (cases "?e = 0") (simp_all add: pow2_def)
  have "x / pow2 ?e \<le> of_int d / pow2 ?e"
    using assms(2) pow2_pos [of ?e] by (simp add: divide_right_mono)
  also have "of_int d / pow2 ?e = of_int (d * 2 ^ nat (- ?e))" by (simp add: p)
  finally have "rhe (x / pow2 ?e) \<le> d * 2 ^ nat (- ?e)" by (rule rhe_le)
  then have "(of_int (rhe (x / pow2 ?e)) :: rat) \<le> of_int (d * 2 ^ nat (- ?e))"
    by (simp only: of_int_le_iff)
  then have "of_int (rhe (x / pow2 ?e)) * pow2 ?e \<le> of_int (d * 2 ^ nat (- ?e)) * pow2 ?e"
    using pow2_pos [of ?e] by (simp add: mult_right_mono)
  also have "of_int (d * 2 ^ nat (- ?e)) * pow2 ?e = of_int d" by (simp add: p)
  finally show ?thesis using assms(1) by (simp add: fl_def)
qed

lemma fl_le_1: "0 \<le> x \<Longrightarrow> x \<le> 1 \<Longrightarrow> fl x \<le> 1"
proof (cases "x = 0")
  case True
  then show ?thesis by (simp add: fl_def)
next
  case False
  assume "0 \<le> x" "x \<le> 1"
  with False have "0 < x" "x \<le> of_int 1" "ulp_exp x \<le> 0"
    using ulp_exp_le [of x] by simp_all
  from fl_le_int [OF this] show ?thesis by simp
qed

lemma fl_le_100: "0 \<le> x \<Longrightarrow> x \<le> 100 \<Longrightarrow> fl x \<le> 100"
proof (cases "x = 0")
  case True
  then show ?thesis by (simp add: fl_def)
next
  case False
  assume "0 \<le> x" "x \<le> 100"
  with False have "0 < x" "x \<le> of_int 100" "ulp_exp x \<le> 0"
    using ulp_exp_le [of x] by simp_all
  from fl_le_int [OF this] show ?thesis by simp
qed

lemma py_round_2_range: "0 \<le> x \<Longrightarrow> x \<le> 100 \<Longrightarrow> 0 \<le> py_round x 2 \<and> py_round x 2 \<le> 100"
proof -
  assume x: "0 \<le> x" "x \<le> 100"
  have "of_int 0 \<le> x * 10 ^ 2" "x * 10 ^ 2 \<le> of_int 10000" using x by simp_all
  then have "0 \<le> rhe (x * 10 ^ 2)" "rhe (x * 10 ^ 2) \<le> 10000"
    using rhe_ge rhe_le by blast+
  then have "(0::rat) \<le> of_int (rhe (x * 10 ^ 2)) / 10 ^ 2" "(of_int (rhe (x * 10 ^ 2)) :: rat) / 10 ^ 2 \<le> 100"
    by simp_all
  then show ?thesis unfolding py_round_def using fl_nonneg fl_le_100 by blast
qed

lemma match_pct_range: "0 \<le> match_pct T keywords txt \<and> match_pct T keywords txt \<le> 100"
proof (cases "keywords = []")
  case True
  then show ?thesis by (simp add: match_pct_def)
next
  case False
  let ?q = "(of_nat (length (matched T keywords txt)) :: rat) / of_nat (length keywords)"
  have "length (matched T keywords txt) \<le> length keywords" by (simp add: matched_def)
  then have q: "0 \<le> ?q" "?q \<le> 1" using False by (simp_all add: divide_le_eq_1)
  then have "0 \<le> fl ?q" "fl ?q \<le> 1" using fl_nonneg fl_le_1 by blast+
  then have "0 \<le> fl ?q * 100" "fl ?q * 100 \<le> 100" by simp_all
  then have "0 \<le> fmul (fl ?q) 100" "fmul (fl ?q) 100 \<le> 100"
    unfolding fmul_def using fl_nonneg fl_le_100 by blast+
  from py_round_2_range [OF this] False show ?thesis by (simp add: match_pct_def)
qed

subsection \<open>The fallback loop\<close>

lemma collect_text_acc:
  "collect_text acc nodes =
     acc @ concat (map (\<lambda>t. t @ asc '' '')
       (concat (map (\<lambda>node. if is_t_tag (tag node)
                             then (case text' node of None \<Rightarrow> [] | Some t \<Rightarrow> if t = [] then [] else [t])
                             else []) nodes)))"
proof (induction nodes arbitrary: acc)
  case Nil
  show ?case by simp
next
  case (Cons node nodes)
  show ?case
  proof (cases "is_t_tag (tag node)")
    case False
    then show ?thesis using Cons.IH [of acc] by (simp add: is_t_tag_def)
  next
    case True
    show ?thesis
    proof (cases "text' node")
      case None
      with True show ?thesis using Cons.IH [of acc] by (simp add: is_t_tag_def)
    next
      case (Some t)
      with True show ?thesis using Cons.IH [of acc] Cons.IH [of "acc @ t @ asc '' ''"]
        by (cases "t = []") (simp_all add: is_t_tag_def)
    qed
  qed
qed

lemma collect_text_fragments:
  "collect_text [] (iter tree) = concat (map (\<lambda>t. t @ asc '' '') (t_fragments tree))"
  by (simp add: collect_text_acc [of "[]"] t_fragments_def)

lemma concat_terminated_join:
  "concat (map (\<lambda>t. t @ sep) ts) = (if ts = [] then [] else join sep ts @ sep)"
  by (induction sep ts rule: join.induct) simp_all
subsection \<open>Splitting the local part\<close>

lemma split_on_nonempty: "split_on sep s \<noteq> []"
  by (induction s) (auto split: list.splits)

lemma split_on_head:
  "(case split_on sep s of [] \<Rightarrow> [] | u # _ \<Rightarrow> u) = takeWhile (\<lambda>c. \<not> sep c) s"
  by (induction s) (auto split: list.splits)

lemma str_split_head: "(case str_split a e of [] \<Rightarrow> [] | u # _ \<Rightarrow> u) = takeWhile (\<lambda>c. c \<noteq> a) e"
  by (simp add: str_split_def split_on_head)

lemma sym_name_sep: "sym_match T False [Lit 46, Lit 95] = is_name_sep"
  by (intro ext) (auto simp: sym_match_def is_name_sep_def)

lemma tokens_from_split_on:
  "tokens_from sep cur s =
     filter (\<lambda>p. p \<noteq> []) (case split_on sep s of [] \<Rightarrow> [cur] | h # t \<Rightarrow> (cur @ h) # t)"
proof (induction s arbitrary: cur)
  case Nil
  show ?case by simp
next
  case (Cons c s)
  obtain h t where ht: "split_on sep s = h # t"
    using split_on_nonempty [of sep s] by (cases "split_on sep s") auto
  show ?case
  proof (cases "sep c")
    case True
    with ht show ?thesis using Cons.IH [of "[]"] by simp
  next
    case False
    with ht show ?thesis using Cons.IH [of "cur @ [c]"] by simp
  qed
qed

lemma tokens_split_on: "filter (\<lambda>p. p \<noteq> []) (split_on sep s) = tokens sep s"
proof -
  obtain h t where ht: "split_on sep s = h # t"
    using split_on_nonempty [of sep s] by (cases "split_on sep s") auto
  then show ?thesis unfolding tokens_def tokens_from_split_on by simp
qed

lemma extract_contacts_name:
  "fst (extract_contacts T txt) =
     (case findall T False EMAIL_REGEX txt of
        [] \<Rightarrow> []
      | e # _ \<Rightarrow> join (asc '' '') (map (capitalize T) (tokens is_name_sep (local_part e))))"
  unfolding extract_contacts_def Let_def str_split_head re_split_def tokens_split_on sym_name_sep
    local_part_def
  by (simp split: list.splits)

subsection \<open>The shape of an email\<close>

lemma sym_email_char: "sym_match T False [Word, Lit 46, Lit 45] c = email_char T c"
  by (auto simp: sym_match_def email_char_def)

lemma sym_letter: "sym_match T False [Rng 97 122, Rng 65 90] c = is_letter c"
  by (auto simp: sym_match_def is_letter_def)

lemma lang_Lit_False: "lang T False (Sym [Lit a]) = {[a]}"
  by (auto simp: sym_match_def)

lemma not_email_char_at: "unicode_ok T \<Longrightarrow> \<not> email_char T 64"
  by (simp add: email_char_def ok_word)

lemma lang_EMAIL:
  "lang T False EMAIL_REGEX =
     {l @ [64] @ d @ [46] @ t | l d t.
        l \<noteq> [] \<and> list_all (email_char T) l \<and> d \<noteq> [] \<and> list_all (email_char T) d
        \<and> 2 \<le> length t \<and> list_all is_letter t}"
  unfolding EMAIL_REGEX_def lang.simps(3) lang_Plus_Sym lang_AtLeast_Sym lang_Lit_False
    sym_email_char sym_letter
  by blast

lemma local_part_email:
  "unicode_ok T \<Longrightarrow> list_all (email_char T) l \<Longrightarrow> local_part (l @ [64] @ rest) = l"
  unfolding local_part_def using not_email_char_at [of T]
  by (induction l) auto

subsection \<open>What a scan finds\<close>








subsection \<open>The joined string determines the list\<close>







subsection \<open>What a scan for a group finds\<close>

lemma scanned_group_Cons:
  assumes nostart: "\<And>g u post. c # cs = g @ u @ post \<Longrightarrow> g \<in> G \<Longrightarrow> u \<notin> R"
    and sc: "scanned_group G R cs gs"
  shows "scanned_group G R (c # cs) gs"
  using sc
proof (cases rule: scanned_group.cases)
  case scanned_group_none
  show ?thesis unfolding scanned_group_none(1)
  proof (rule scanned_group.scanned_group_none)
    fix pre g u post assume eq: "c # cs = pre @ g @ u @ post" and g: "g \<in> G"
    show "u \<notin> R"
    proof (cases pre)
      case Nil
      with eq g nostart show ?thesis by simp
    next
      case (Cons a pre')
      with eq have "cs = pre' @ g @ u @ post" by simp
      with scanned_group_none(2) g show ?thesis by blast
    qed
  qed
next
  case (scanned_group_match g u pre post gs')
  have "scanned_group G R ((c # pre) @ g @ u @ post) (g # gs')"
  proof (rule scanned_group.scanned_group_match
      [OF scanned_group_match(3) scanned_group_match(4) _ scanned_group_match(6)])
    fix pre1 pre2 g' u' post'
    assume a: "c # pre = pre1 @ pre2" "pre2 \<noteq> []" "pre2 @ g @ u @ post = g' @ u' @ post'"
      and g': "g' \<in> G"
    show "u' \<notin> R"
    proof (cases pre1)
      case Nil
      with a have "c # cs = g' @ u' @ post'" using scanned_group_match(1) by auto
      with nostart g' show ?thesis by blast
    next
      case (Cons b pre1')
      with a have "pre = pre1' @ pre2" by simp
      with scanned_group_match(5) a g' show ?thesis by blast
    qed
  qed
  then show ?thesis using scanned_group_match by simp
qed

lemma findall_group_scanned:
  assumes ne: "[] \<notin> lang T ic g"
  shows "scanned_group (lang T ic g) (lang T ic r) s (findall_group T ic g r s)"
  using ne
proof (induction T ic g r s rule: findall_group.induct)
  case (1 T ic g r s)
  show ?case
  proof (cases "first_match_group T ic g r s")
    case None
    then have nostart: "\<And>m u post. s = m @ u @ post \<Longrightarrow> m \<in> lang T ic g \<Longrightarrow> u \<notin> lang T ic r"
      unfolding first_match_group_None by blast
    show ?thesis
    proof (cases s)
      case Nil
      with None have "findall_group T ic g r s = []" by (simp add: findall_group.simps [of T ic g r s])
      moreover have "scanned_group (lang T ic g) (lang T ic r) [] []"
        by (rule scanned_group_none) (use "1.prems" in auto)
      ultimately show ?thesis using Nil by simp
    next
      case (Cons c cs)
      from "1.IH"(1) None Cons "1.prems"
      have "scanned_group (lang T ic g) (lang T ic r) cs (findall_group T ic g r cs)" by blast
      moreover from nostart Cons
      have "\<And>m u post. c # cs = m @ u @ post \<Longrightarrow> m \<in> lang T ic g \<Longrightarrow> u \<notin> lang T ic r" by blast
      ultimately have "scanned_group (lang T ic g) (lang T ic r) (c # cs) (findall_group T ic g r cs)"
        using scanned_group_Cons [of c cs "lang T ic g" "lang T ic r" "findall_group T ic g r cs"] by blast
      moreover have "findall_group T ic g r s = findall_group T ic g r cs"
        using None Cons by (simp add: findall_group.simps [of T ic g r s])
      ultimately show ?thesis using Cons by simp
    qed
  next
    case (Some p)
    obtain s1 s2 where p: "p = (s1, s2)" by (cases p)
    from first_match_group_Some [OF Some [unfolded p]] obtain m u
      where m: "m \<in> lang T ic g" "u \<in> lang T ic r" "s = m @ s1" "s1 = u @ s2" by auto
    with "1.prems" have "m \<noteq> []" by auto
    then have len: "length s2 < length s" using m by simp
    from "1.IH"(2) Some p len "1.prems"
    have sc: "scanned_group (lang T ic g) (lang T ic r) s2 (findall_group T ic g r s2)" by blast
    have "scanned_group (lang T ic g) (lang T ic r) ([] @ m @ u @ s2) (m # findall_group T ic g r s2)"
      by (rule scanned_group_match [OF m(1) m(2) _ sc]) simp
    moreover have "take (length s - length s1) s = m" using m by simp
    then have "findall_group T ic g r s = m # findall_group T ic g r s2"
      using Some p len by (simp add: findall_group.simps [of T ic g r s])
    ultimately show ?thesis using m by simp
  qed
qed

lemma scanned_group_empty_iff:
  assumes "scanned_group G R s gs"
  shows "gs = [] \<longleftrightarrow> (\<forall>pre g u post. s = pre @ g @ u @ post \<longrightarrow> g \<in> G \<longrightarrow> u \<notin> R)"
  using assms
proof (cases rule: scanned_group.cases)
  case scanned_group_none
  then show ?thesis by blast
next
  case (scanned_group_match g u pre post gs')
  then show ?thesis by blast
qed

lemma lang_Str_ic: "lang T True (Str kw) = {m. list_all2 (ieq T) kw m}"
proof -
  have eq: "(\<lambda>a c. atom_match T True (Lit a) c) = ieq T"
    by (intro ext) simp
  show ?thesis
    unfolding lang_Str eq ..
qed

lemma sym_space: "sym_match T ic [Space] c = is_space T c"
  by (simp add: sym_match_def)

lemma lang_EXP_UNIT: "lang T True EXP_UNIT = unit_strings T"
  unfolding EXP_UNIT_def unit_strings_def lang.simps(3) lang.simps(4) lang_Star_Sym lang_Str_ic
    sym_space
  by blast

lemma lang_EXP_NUMBER_decimal: "unicode_ok T \<Longrightarrow> lang T ic EXP_NUMBER = decimal_strings T"
  unfolding decimal_strings_def by (rule lang_EXP_NUMBER)

lemma decimal_nonempty: "[] \<notin> lang T ic EXP_NUMBER"
  unfolding EXP_NUMBER_def lang.simps(3) lang_Plus_Sym by simp

lemma exp_scanned:
  assumes ok: "unicode_ok T"
  shows "scanned_group (decimal_strings T) (unit_strings T) txt
           (findall_group T True EXP_NUMBER EXP_UNIT txt)"
  using findall_group_scanned [OF decimal_nonempty, of T True EXP_UNIT "txt"]
  unfolding lang_EXP_NUMBER_decimal [OF ok] lang_EXP_UNIT .

subsection \<open>Rounding does not go below a half-integer\<close>

lemma to_float_Fin: "fl x \<le> 100 \<Longrightarrow> to_float x = Fin (fl x)"
proof -
  assume "fl x \<le> 100"
  moreover have "(100::rat) < 2 ^ 1024" by simp
  ultimately have "\<not> 2 ^ 1024 \<le> fl x" by linarith
  then show ?thesis by (simp add: to_float_def Let_def)
qed

lemma ilog2_lower: "1 \<le> x \<Longrightarrow> pow2 (ilog2 x) \<le> x"
proof -
  assume x: "1 \<le> x"
  then have f: "0 < \<lfloor>x\<rfloor>" by simp
  from bitlen_bounds [OF f] have b: "2 ^ nat (bitlen \<lfloor>x\<rfloor> - 1) \<le> \<lfloor>x\<rfloor>" by simp
  have "1 \<le> bitlen \<lfloor>x\<rfloor>" using f by (simp add: bitlen_alt_def)
  then have "pow2 (ilog2 x) = 2 ^ nat (bitlen \<lfloor>x\<rfloor> - 1)"
    using x by (simp add: ilog2_def pow2_def)
  also have "\<dots> = of_int (2 ^ nat (bitlen \<lfloor>x\<rfloor> - 1))" by simp
  also have "\<dots> \<le> of_int \<lfloor>x\<rfloor>" using b by (simp only: of_int_le_iff)
  also have "\<dots> \<le> x" by simp
  finally show ?thesis .
qed

lemma fl_ge_int_half:
  assumes "of_int k / 2 \<le> x" "1 \<le> x" "0 \<le> k" "k < 2 ^ 52"
  shows "of_int k / 2 \<le> fl x"
proof -
  let ?e = "ulp_exp x"
  have x0: "x \<noteq> 0" using assms(2) by simp
  have fl: "fl x = of_int (rhe (x / pow2 ?e)) * pow2 ?e" using x0 by (simp add: fl_def)
  show ?thesis
  proof (cases "?e \<le> - 1")
    case True
    define m where "m = nat (- ?e - 1)"
    from True have n: "nat (- ?e) = Suc m" by (simp add: m_def)
    from True have p: "pow2 ?e = 1 / 2 ^ Suc m" by (simp add: pow2_def n)
    have "of_int k / 2 / pow2 ?e = (of_int (k * 2 ^ m) :: rat)"
      unfolding p by simp
    moreover have "of_int k / 2 / pow2 ?e \<le> x / pow2 ?e"
      by (rule divide_right_mono [OF assms(1) less_imp_le [OF pow2_pos]])
    ultimately have "of_int (k * 2 ^ m) \<le> x / pow2 ?e" by simp
    then have "k * 2 ^ m \<le> rhe (x / pow2 ?e)" by (rule rhe_ge)
    then have "(of_int (k * 2 ^ m) :: rat) \<le> of_int (rhe (x / pow2 ?e))"
      by (simp only: of_int_le_iff)
    then have le: "of_int (k * 2 ^ m) * pow2 ?e \<le> of_int (rhe (x / pow2 ?e)) * pow2 ?e"
      by (rule mult_right_mono [OF _ less_imp_le [OF pow2_pos]])
    have eq: "(of_int (k * 2 ^ m) :: rat) * pow2 ?e = of_int k / 2"
      unfolding p by simp
    from le [unfolded eq] show ?thesis unfolding fl .
  next
    case False
    then have e0: "0 \<le> ?e" by simp
    then have il: "ilog2 x = ?e + 52" using assms(2) by (simp add: ulp_exp_def max_def split: if_splits)
    have pe: "pow2 ?e = 2 ^ nat ?e" using e0 by (simp add: pow2_def)
    have "pow2 (ilog2 x) = 2 ^ nat ?e * 2 ^ 52"
      unfolding il using e0 by (simp add: pow2_def nat_add_distrib power_add)
    with ilog2_lower [OF assms(2)] have "2 ^ nat ?e * 2 ^ 52 \<le> x" by simp
    then have "(2 ^ 52 :: rat) \<le> x / pow2 ?e"
      unfolding pe by (simp add: le_divide_eq mult.commute)
    then have "of_int (2 ^ 52) \<le> x / pow2 ?e" by simp
    then have "2 ^ 52 \<le> rhe (x / pow2 ?e)" by (rule rhe_ge)
    then have "(2 ^ 52 :: rat) \<le> of_int (rhe (x / pow2 ?e))"
      by (metis of_int_le_iff of_int_numeral of_int_power)
    moreover have "(1::rat) \<le> pow2 ?e" unfolding pe by simp
    ultimately have "(2 ^ 52 :: rat) * 1 \<le> of_int (rhe (x / pow2 ?e)) * pow2 ?e"
      by (intro mult_mono) simp_all
    moreover have "(of_int k :: rat) / 2 \<le> 2 ^ 52"
    proof -
      have "(of_int k :: rat) \<le> of_int (2 ^ 52)" using assms(4) by (simp only: of_int_le_iff)
      then show ?thesis by simp
    qed
    ultimately show ?thesis unfolding fl by simp
  qed
qed

lemma to_float_ge:
  assumes "of_int k / 2 \<le> x" "1 \<le> x" "0 \<le> k" "k < 2 ^ 52"
  shows "Fin (of_int k / 2) \<le> to_float x"
  using fl_ge_int_half [OF assms] by (simp add: to_float_def Let_def)
subsection \<open>A text that contains 4.5 years\<close>

lemma decimal_numchar: "g \<in> decimal_strings T \<Longrightarrow> list_all (numchar T) g"
  unfolding decimal_strings_def by (auto simp: numchar_def list_all_iff)

lemma space_not_numchar: "unicode_ok T \<Longrightarrow> is_space T c \<Longrightarrow> \<not> numchar T c"
  using ok_space_digit [of T c] ok_space [of T 46] by (auto simp: numchar_def)

lemma list_all2_right:
  "list_all2 P xs ys \<Longrightarrow> y \<in> set ys \<Longrightarrow> \<exists>x \<in> set xs. P x y"
  by (induction rule: list_all2_induct) auto

lemma letter_not_numchar:
  assumes ok: "unicode_ok T" and m: "ieq T a c" and a: "a \<in> set (asc ''years'')"
  shows "\<not> numchar T c"
proof
  assume "numchar T c"
  then consider "is_digit T c" | "c = 46" by (auto simp: numchar_def)
  then show False
  proof cases
    case 1
    with ok m have "a = c" by (rule ok_ieq_digit)
    with 1 have "is_digit T a" by simp
    moreover from a have "a < 128" "\<not> (48 \<le> a \<and> a \<le> 57)" by (auto simp: asc_def)
    ultimately show False using ok_digit [OF ok, of a] by simp
  next
    case 2
    with ok_ieq_dot [OF ok m] have "a = 46" by simp
    with a show False by (simp add: asc_def)
  qed
qed

lemma unit_word_not_numchar:
  assumes ok: "unicode_ok T"
    and w: "list_all2 (ieq T) (asc ''years'') w \<or> list_all2 (ieq T) (asc ''yrs'') w
            \<or> list_all2 (ieq T) (asc ''year'') w"
    and c: "c \<in> set w"
  shows "\<not> numchar T c"
proof -
  from w c obtain a where "ieq T a c"
    "a \<in> set (asc ''years'') \<or> a \<in> set (asc ''yrs'') \<or> a \<in> set (asc ''year'')"
    using list_all2_right [of "ieq T" _ w c] by blast
  moreover have "set (asc ''yrs'') \<subseteq> set (asc ''years'')" "set (asc ''year'') \<subseteq> set (asc ''years'')"
    by (simp_all add: asc_def)
  ultimately have "ieq T a c" "a \<in> set (asc ''years'')" by blast+
  with ok show ?thesis by (rule letter_not_numchar)
qed

lemma unit_not_numchar:
  assumes ok: "unicode_ok T" and "u \<in> unit_strings T"
  shows "u \<noteq> [] \<and> list_all (\<lambda>c. \<not> numchar T c) u"
proof -
  from assms(2) obtain ws w where u: "u = ws @ w" "list_all (is_space T) ws"
    "list_all2 (ieq T) (asc ''years'') w \<or> list_all2 (ieq T) (asc ''yrs'') w
       \<or> list_all2 (ieq T) (asc ''year'') w"
    unfolding unit_strings_def by blast
  from u(3) have "w \<noteq> []" by (auto simp: asc_def)
  moreover have "list_all (\<lambda>c. \<not> numchar T c) ws"
    using u(2) space_not_numchar [OF ok] by (auto simp: list_all_iff)
  moreover have "list_all (\<lambda>c. \<not> numchar T c) w"
    using unit_word_not_numchar [OF ok u(3)] by (auto simp: list_all_iff)
  ultimately show ?thesis using u(1) by simp
qed

lemma takeWhile_stop:
  "list_all P g \<Longrightarrow> u \<noteq> [] \<Longrightarrow> list_all (\<lambda>c. \<not> P c) u \<Longrightarrow> takeWhile P (g @ u @ post) = g"
  by (induction g) (auto simp: neq_Nil_conv)

lemma asc_45_years: "asc ''4.5 years'' = asc ''4.5'' @ asc '' years''"
  by (simp add: asc_def)

lemma takeWhile_45:
  "unicode_ok T \<Longrightarrow> takeWhile (numchar T) (asc ''4.5 years'' @ b) = asc ''4.5''"
  by (simp add: asc_def numchar_def ok_digit)

lemma numchar_4: "unicode_ok T \<Longrightarrow> numchar T 52"
  by (simp add: numchar_def ok_digit)

lemma dec_45: "unicode_ok T \<Longrightarrow> asc ''4.5'' \<in> decimal_strings T"
  unfolding decimal_strings_def
  by (rule CollectI, rule exI [of _ "[52]"], rule exI [of _ "[46, 53]"]) (simp add: asc_def ok_digit)

lemma unit_years: "unicode_ok T \<Longrightarrow> asc '' years'' \<in> unit_strings T"
  unfolding unit_strings_def
  by (rule CollectI, rule exI [of _ "[32]"], rule exI [of _ "asc ''years''"])
     (simp add: asc_def ok_space ok_ieq_ascii)

lemma scanned_group_set: "scanned_group G R s gs \<Longrightarrow> set gs \<subseteq> G"
  by (induction rule: scanned_group.induct) auto

lemma starts_4_not_unit:
  assumes ok: "unicode_ok T"
    and "u \<in> unit_strings T" "w \<noteq> []" "u = v @ w" "w @ post = asc ''4.5 years'' @ b"
  shows False
proof -
  from assms(3,5) obtain w' where "w = 52 # w'" by (cases w) (auto simp: asc_def)
  with assms(4) have "52 \<in> set u" by simp
  with unit_not_numchar [OF ok assms(2)] numchar_4 [OF ok] show False by (auto simp: list_all_iff)
qed

lemma scanned_covers_45:
  assumes ok: "unicode_ok T"
  shows "scanned_group (decimal_strings T) (unit_strings T) s gs \<Longrightarrow>
    s = a @ asc ''4.5 years'' @ b \<Longrightarrow> \<exists>g \<in> set gs. \<exists>x. g = x @ asc ''4.5''"
proof (induction arbitrary: a rule: scanned_group.induct)
  case (scanned_group_none s)
  have "s = a @ asc ''4.5'' @ asc '' years'' @ b"
    using scanned_group_none(2) by (simp add: asc_45_years)
  with scanned_group_none(1) dec_45 [OF ok] unit_years [OF ok] show ?case by blast
next
  case (scanned_group_match g u pre post gs)
  note left = scanned_group_match(3)
  note IH = scanned_group_match(5)
  from scanned_group_match(6) have "pre @ (g @ u @ post) = a @ (asc ''4.5 years'' @ b)" by simp
  then consider
    (A) us where "pre = a @ us" "us \<noteq> []" "us @ (g @ u @ post) = asc ''4.5 years'' @ b"
  | (B) us where "pre @ us = a" "g @ u @ post = us @ asc ''4.5 years'' @ b"
    unfolding append_eq_append_conv2 [of pre "g @ u @ post" a "asc ''4.5 years'' @ b"]
    by (metis append_Nil2 append_Nil)
  then show ?case
  proof cases
    case A
    then have "us @ g @ u @ post = asc ''4.5'' @ asc '' years'' @ b"
      by (simp add: asc_45_years)
    from left [OF A(1) A(2) this dec_45 [OF ok]] unit_years [OF ok] show ?thesis by blast
  next
    case B
    from B(2) have "g @ (u @ post) = us @ (asc ''4.5 years'' @ b)" by simp
    then consider
      (B1) vs where "g = us @ vs" "vs @ (u @ post) = asc ''4.5 years'' @ b"
    | (B2) vs where "g @ vs = us" "u @ post = vs @ asc ''4.5 years'' @ b"
      unfolding append_eq_append_conv2 [of g "u @ post" us "asc ''4.5 years'' @ b"]
      by blast
    then show ?thesis
    proof cases
      case B1
      have un: "u \<noteq> [] \<and> list_all (\<lambda>c. \<not> numchar T c) u"
        by (rule unit_not_numchar [OF ok scanned_group_match(2)])
      show ?thesis
      proof (cases "vs = []")
        case True
        with B1(2) have "u @ post = asc ''4.5 years'' @ b" by simp
        with starts_4_not_unit [OF ok scanned_group_match(2), of u "[]" post b] un
        show ?thesis by simp
      next
        case False
        have "list_all (numchar T) g" by (rule decimal_numchar [OF scanned_group_match(1)])
        with B1(1) have "list_all (numchar T) vs" by simp
        with un have "takeWhile (numchar T) (vs @ u @ post) = vs"
          by (intro takeWhile_stop) simp_all
        with B1(2) have "vs = asc ''4.5''" using takeWhile_45 [OF ok, of b] by simp
        with B1(1) show ?thesis by auto
      qed
    next
      case B2
      from B2(2) have "u @ post = vs @ (asc ''4.5 years'' @ b)" by simp
      then consider
        (B2a) ws where "u = vs @ ws" "ws @ post = asc ''4.5 years'' @ b"
      | (B2b) ws where "u @ ws = vs" "post = ws @ asc ''4.5 years'' @ b"
        unfolding append_eq_append_conv2 [of u post vs "asc ''4.5 years'' @ b"]
        by blast
      then show ?thesis
      proof cases
        case B2a
        show ?thesis
        proof (cases "ws = []")
          case True
          with B2a(2) have "post = [] @ asc ''4.5 years'' @ b" by simp
          from IH [OF this] show ?thesis by auto
        next
          case False
          from starts_4_not_unit [OF ok scanned_group_match(2) False B2a(1) B2a(2)]
          show ?thesis ..
        qed
      next
        case B2b
        from IH [OF B2b(2)] show ?thesis by auto
      qed
    qed
  qed
qed

lemma digits_value_snoc: "digits_value T (ds @ [c]) = 10 * digits_value T ds + digit_value T c"
  by (simp add: digits_value_def)

lemma dec_value_45:
  assumes ok: "unicode_ok T" and "g \<in> decimal_strings T" "g = x @ asc ''4.5''"
  shows "9 / 2 \<le> dec_value T g"
proof -
  note ndot = not_digit_dot [OF ok]
  from assms(2) obtain ip fp' where g: "g = ip @ fp'" "ip \<noteq> []" "list_all (is_digit T) ip"
    and fp': "fp' = [] \<or> (\<exists>fp. fp' = 46 # fp \<and> fp \<noteq> [] \<and> list_all (is_digit T) fp)"
    unfolding decimal_strings_def by blast
  have g45: "g = x @ [52, 46, 53]" using assms(3) by (simp add: asc_def)
  then have dot: "46 \<in> set g" by simp
  have "fp' \<noteq> []"
  proof
    assume "fp' = []"
    with g dot have "is_digit T 46" by (auto simp: list_all_iff)
    with ndot show False by simp
  qed
  with fp' obtain fp where fp: "fp' = 46 # fp" "list_all (is_digit T) fp" by blast
  have nd: "46 \<notin> set ip" "46 \<notin> set fp"
    using g(3) fp(2) ndot by (auto simp: list_all_iff)
  have "ip @ 46 # fp = (x @ [52]) @ 46 # [53]" using g fp g45 by simp
  with append_Cons_eq_iff [OF nd, of "x @ [52]" "[53]"]
  have ip: "ip = x @ [52]" and f5: "fp = [53]" by simp_all
  have tw: "takeWhile (is_digit T) g = x @ [52]" "dropWhile (is_digit T) g = [46, 53]"
    using g(1,3) fp(1) ip f5 takeWhile_digits [OF ndot, of ip fp] dropWhile_digits [OF ndot, of ip fp]
    by simp_all
  have "dec_value T g = of_nat (digits_value T (x @ [52])) + of_nat (digits_value T [53]) / 10 ^ 1"
    unfolding dec_value_def tw by (simp add: Let_def)
  also have "digits_value T (x @ [52]) = 10 * digits_value T x + 4"
    using digits_value_snoc [of T x 52] ok_digit_value [OF ok, of 52] by simp
  also have "digits_value T [53] = 5"
    using ok_digit_value [OF ok, of 53] by (simp add: digits_value_def)
  finally have "dec_value T g = of_nat (10 * digits_value T x + 4) + 5 / 10" by simp
  then show ?thesis by simp
qed

lemma experience_contains_45:
  assumes ok: "unicode_ok T"
  shows "Fin (9 / 2) \<le> experience T (a @ asc ''4.5 years'' @ b)"
proof -
  let ?txt = "a @ asc ''4.5 years'' @ b"
  let ?nums = "findall_group T True EXP_NUMBER EXP_UNIT ?txt"
  have sc: "scanned_group (decimal_strings T) (unit_strings T) ?txt ?nums"
    by (rule exp_scanned [OF ok])
  from scanned_covers_45 [OF ok sc refl] obtain g x where g: "g \<in> set ?nums" "g = x @ asc ''4.5''"
    by blast
  from g(1) scanned_group_set [OF sc] have dg: "g \<in> decimal_strings T" by blast
  from dec_value_45 [OF ok dg g(2)] have v: "of_int 9 / 2 \<le> dec_value T g" by simp
  then have "1 \<le> dec_value T g" by simp
  from to_float_ge [OF v this] have ge: "Fin (9 / 2) \<le> to_float (dec_value T g)" by simp
  have mem: "to_float (dec_value T g) \<in> set (exp_nums T ?txt)"
    using g(1) by (simp add: exp_nums_def)
  have "to_float (dec_value T g) \<le> Max (set (exp_nums T ?txt))"
    by (rule Max_ge [OF _ mem]) simp
  with ge have "Fin (9 / 2) \<le> Max (set (exp_nums T ?txt))" by (rule order_trans)
  moreover have "exp_nums T ?txt \<noteq> []" using mem by auto
  ultimately show ?thesis unfolding experience_def by (simp only: if_False)
qed

lemma fsub_5_1: "fsub 5 1 = 4"
  by code_simp

lemma experience_12_45:
  "experience basic_latin (asc ''12 years, 4.5 years of experience'') = Fin 12"
proof -
  have n: "findall_group basic_latin True EXP_NUMBER EXP_UNIT
             (asc ''12 years, 4.5 years of experience'') = [asc ''12'', asc ''4.5'']"
    by code_simp
  have f: "fl (dec_value basic_latin (asc ''12'')) = 12"
    "fl (dec_value basic_latin (asc ''4.5'')) = 9 / 2"
    by code_simp+
  show ?thesis
    unfolding experience_def exp_nums_def n by (simp add: to_float_Fin f)
qed

lemma experience_45: "experience basic_latin (asc ''4.5 years of experience'') = Fin (9 / 2)"
proof -
  have n: "findall_group basic_latin True EXP_NUMBER EXP_UNIT (asc ''4.5 years of experience'')
             = [asc ''4.5'']"
    by code_simp
  have f: "fl (dec_value basic_latin (asc ''4.5'')) = 9 / 2"
    by code_simp
  show ?thesis
    unfolding experience_def exp_nums_def n by (simp add: to_float_Fin f)
qed

subsection \<open>Searching for a term\<close>


lemma re_search_lang:
  "re_search T ic r s \<longleftrightarrow> (\<exists>pre m post. s = pre @ m @ post \<and> m \<in> lang T ic r)"
proof (induction s)
  case Nil
  show ?case using first_match_None [of T ic r "[]"] by auto
next
  case (Cons c cs)
  show ?case
  proof
    assume "re_search T ic r (c # cs)"
    then consider "first_match T ic r (c # cs) \<noteq> None" | "re_search T ic r cs" by auto
    then show "\<exists>pre m post. c # cs = pre @ m @ post \<and> m \<in> lang T ic r"
    proof cases
      case 1
      then obtain m s' where "c # cs = m @ s'" "m \<in> lang T ic r"
        unfolding first_match_None by blast
      then have "c # cs = [] @ m @ s'" by simp
      with \<open>m \<in> lang T ic r\<close> show ?thesis by blast
    next
      case 2
      with Cons obtain pre m post where "cs = pre @ m @ post" "m \<in> lang T ic r" by blast
      then have "c # cs = (c # pre) @ m @ post" by simp
      with \<open>m \<in> lang T ic r\<close> show ?thesis by blast
    qed
  next
    assume "\<exists>pre m post. c # cs = pre @ m @ post \<and> m \<in> lang T ic r"
    then obtain pre m post where e: "c # cs = pre @ m @ post" "m \<in> lang T ic r" by blast
    show "re_search T ic r (c # cs)"
    proof (cases pre)
      case Nil
      with e have "first_match T ic r (c # cs) \<noteq> None" unfolding first_match_None by auto
      then show ?thesis by simp
    next
      case (Cons a pre')
      with e have "cs = pre' @ m @ post" by simp
      with e(2) Cons.IH have "re_search T ic r cs" by blast
      then show ?thesis by simp
    qed
  qed
qed

lemma re_search_escape:
  "re_search T True (re_escape kw) s \<longleftrightarrow>
     (\<exists>pre m post. s = pre @ m @ post \<and> list_all2 (ieq T) kw m)"
  unfolding re_search_lang re_escape_def lang_Str_ic by simp

section \<open>Texts of Basic Latin\<close>

text \<open>
  On texts, terms and paths made of code points below 128, the program computes the same
  with every database that satisfies \<open>unicode_ok\<close> as with \<open>basic_latin\<close>.
\<close>

lemma ascii_append [simp]: "ascii (a @ b) \<longleftrightarrow> ascii a \<and> ascii b"
  by (simp add: ascii_def)

lemma ascii_Nil [simp]: "ascii []"
  by (simp add: ascii_def)

lemma ascii_Cons [simp]: "ascii (c # cs) \<longleftrightarrow> c < 128 \<and> ascii cs"
  by (simp add: ascii_def)

lemma atom_match_ascii:
  assumes ok: "unicode_ok T" and a: "ascii_atom a" and c: "c < 128"
  shows "atom_match T ic a c = atom_match basic_latin ic a c"
proof (cases a)
  case (Lit x)
  with a c show ?thesis
    using ok_ieq_ascii [OF ok, of x c] by (simp add: basic_latin_def)
next
  case (Rng x y)
  have "list_ex (\<lambda>z. ieq T z c) [x..<Suc y] = list_ex (\<lambda>z. ieq basic_latin z c) [x..<Suc y]"
    unfolding list_ex_iff
  proof (rule bex_cong [OF refl])
    fix z assume "z \<in> set [x..<Suc y]"
    with a Rng have "z < 128" by auto
    with c show "ieq T z c = ieq basic_latin z c"
      using ok_ieq_ascii [OF ok, of z c] by (simp add: basic_latin_def)
  qed
  with Rng show ?thesis by simp
next
  case Digit
  with c show ?thesis using ok_digit [OF ok, of c] by (simp add: basic_latin_def)
next
  case Word
  with c show ?thesis using ok_word [OF ok, of c] by (simp add: basic_latin_def)
next
  case Space
  with c show ?thesis using ok_space [OF ok, of c] by (simp add: basic_latin_def)
qed

lemma sym_match_ascii:
  assumes ok: "unicode_ok T" and a: "list_all ascii_atom as" and c: "c < 128"
  shows "sym_match T ic as c = sym_match basic_latin ic as c"
  unfolding sym_match_def list_ex_iff
  using a atom_match_ascii [OF ok _ c] by (auto simp: list_all_iff)

lemma rmatch_rest: "s' \<in> set (rmatch T ic r s) \<Longrightarrow> \<exists>m. s = m @ s'"
  unfolding rmatch_lang by blast

lemma rmatch_rest_ascii: "s' \<in> set (rmatch T ic r s) \<Longrightarrow> ascii s \<Longrightarrow> ascii s'"
  using rmatch_rest [of s' T ic r s] by auto

lemma rmatch_ascii:
  assumes ok: "unicode_ok T"
  shows "ascii_rx r \<Longrightarrow> ascii s \<Longrightarrow> rmatch T ic r s = rmatch basic_latin ic r s"
  using ok
proof (induction T ic r s rule: rmatch.induct)
  case (1 T ic s)
  show ?case by simp
next
  case (2 T ic as s)
  then show ?case by (cases s) (simp_all add: sym_match_ascii)
next
  case (3 T ic r1 r2 s)
  from 3 have e1: "rmatch T ic r1 s = rmatch basic_latin ic r1 s" by simp
  have "map (rmatch T ic r2) (rmatch T ic r1 s) = map (rmatch basic_latin ic r2) (rmatch T ic r1 s)"
  proof (rule map_cong [OF refl])
    fix x assume x: "x \<in> set (rmatch T ic r1 s)"
    then have "ascii x" using "3.prems"(2) by (rule rmatch_rest_ascii)
    with "3.IH"(2) [OF x] "3.prems" show "rmatch T ic r2 x = rmatch basic_latin ic r2 x" by simp
  qed
  then have "concat (map (rmatch T ic r2) (rmatch T ic r1 s))
      = concat (map (rmatch basic_latin ic r2) (rmatch T ic r1 s))"
    by (rule arg_cong)
  then show ?case unfolding rmatch.simps(3) e1 .
next
  case (4 T ic r1 r2 s)
  then show ?case by simp
next
  case (5 T ic r s)
  from 5 have e1: "rmatch T ic r s = rmatch basic_latin ic r s" by simp
  have m: "map (\<lambda>s'. if length s' < length s then rmatch T ic (Star r) s' else []) (rmatch T ic r s)
      = map (\<lambda>s'. if length s' < length s then rmatch basic_latin ic (Star r) s' else []) (rmatch T ic r s)"
  proof (rule map_cong [OF refl])
    fix x assume x: "x \<in> set (rmatch T ic r s)"
    then have ax: "ascii x" using "5.prems"(2) by (rule rmatch_rest_ascii)
    show "(if length x < length s then rmatch T ic (Star r) x else [])
        = (if length x < length s then rmatch basic_latin ic (Star r) x else [])"
      using "5.IH"(2) [OF x] "5.prems" ax by simp
  qed
  show ?case
    by (simp only: rmatch.simps(5) [of T ic r s] rmatch.simps(5) [of basic_latin ic r s]
          e1 [symmetric] m)
qed

lemma ascii_take: "ascii s \<Longrightarrow> ascii (take n s)"
  unfolding ascii_def list_all_iff using set_take_subset [of n s] by blast

lemma ascii_drop: "ascii s \<Longrightarrow> ascii (drop n s)"
  unfolding ascii_def list_all_iff using set_drop_subset [of n s] by blast

lemma ascii_takeWhile: "ascii s \<Longrightarrow> ascii (takeWhile P s)"
  unfolding ascii_def list_all_iff using set_takeWhileD [of _ P s] by blast

lemma first_match_ascii:
  "unicode_ok T \<Longrightarrow> ascii_rx r \<Longrightarrow> ascii s \<Longrightarrow> first_match T ic r s = first_match basic_latin ic r s"
  by (simp add: first_match_def rmatch_ascii)

lemma first_match_rest_ascii: "first_match T ic r s = Some s' \<Longrightarrow> ascii s \<Longrightarrow> ascii s'"
  using first_match_Some [of T ic r s s'] by auto

lemma findall_ascii:
  assumes ok: "unicode_ok T" and rx: "ascii_rx r"
  shows "ascii s \<Longrightarrow> findall T ic r s = findall basic_latin ic r s"
  using ok rx
proof (induction T ic r s rule: findall.induct)
  case (1 T ic r s)
  have fm: "first_match basic_latin ic r s = first_match T ic r s"
    using first_match_ascii [OF "1.prems"(2) "1.prems"(3) "1.prems"(1)] by simp
  show ?case
  proof (cases "first_match T ic r s")
    case None
    show ?thesis
    proof (cases s)
      case Nil
      with None fm show ?thesis
        by (simp add: findall.simps [of T ic r s] findall.simps [of basic_latin ic r s])
    next
      case (Cons c cs)
      with "1.prems" have "ascii cs" by simp
      with "1.IH"(1) [OF None Cons] "1.prems" have "findall T ic r cs = findall basic_latin ic r cs"
        by simp
      with None fm Cons show ?thesis
        by (simp add: findall.simps [of T ic r s] findall.simps [of basic_latin ic r s])
    qed
  next
    case (Some s')
    have as': "ascii s'" using Some "1.prems"(1) by (rule first_match_rest_ascii)
    show ?thesis
    proof (cases "length s' < length s")
      case True
      with "1.IH"(2) [OF Some True] "1.prems" as'
      have "findall T ic r s' = findall basic_latin ic r s'" by simp
      with Some fm True show ?thesis
        by (simp add: findall.simps [of T ic r s] findall.simps [of basic_latin ic r s])
    next
      case False
      show ?thesis
      proof (cases s)
        case Nil
        with Some fm False show ?thesis
          by (simp add: findall.simps [of T ic r s] findall.simps [of basic_latin ic r s])
      next
        case (Cons c cs)
        with "1.prems" have "ascii cs" by simp
        with "1.IH"(3) [OF Some False Cons] "1.prems"
        have "findall T ic r cs = findall basic_latin ic r cs" by simp
        with Some fm False Cons show ?thesis
          by (simp add: findall.simps [of T ic r s] findall.simps [of basic_latin ic r s])
      qed
    qed
  qed
qed

lemma findall_elem_ascii: "e \<in> set (findall T ic r s) \<Longrightarrow> ascii s \<Longrightarrow> ascii e"
proof (induction T ic r s rule: findall.induct)
  case (1 T ic r s)
  show ?case
  proof (cases "first_match T ic r s")
    case None
    with 1 show ?thesis by (cases s) (auto simp: findall.simps [of T ic r s])
  next
    case (Some s')
    have as': "ascii s'" using Some "1.prems"(2) by (rule first_match_rest_ascii)
    have tk: "ascii (take (length s - length s') s)" using "1.prems"(2) by (rule ascii_take)
    show ?thesis
    proof (cases "length s' < length s")
      case True
      with 1 Some tk as' show ?thesis by (auto simp: findall.simps [of T ic r s])
    next
      case False
      with 1 Some tk show ?thesis by (cases s) (auto simp: findall.simps [of T ic r s])
    qed
  qed
qed

lemma first_match_group_ascii:
  assumes ok: "unicode_ok T" and g: "ascii_rx g" and r: "ascii_rx r" and s: "ascii s"
  shows "first_match_group T ic g r s = first_match_group basic_latin ic g r s"
proof -
  have e1: "rmatch T ic g s = rmatch basic_latin ic g s" by (rule rmatch_ascii [OF ok g s])
  have m: "map (\<lambda>s1. map (\<lambda>s2. (s1, s2)) (rmatch T ic r s1)) (rmatch T ic g s)
      = map (\<lambda>s1. map (\<lambda>s2. (s1, s2)) (rmatch basic_latin ic r s1)) (rmatch T ic g s)"
  proof (rule map_cong [OF refl])
    fix x assume "x \<in> set (rmatch T ic g s)"
    then have "ascii x" using s by (rule rmatch_rest_ascii)
    then show "map (\<lambda>s2. (x, s2)) (rmatch T ic r x) = map (\<lambda>s2. (x, s2)) (rmatch basic_latin ic r x)"
      by (simp only: rmatch_ascii [OF ok r])
  qed
  show ?thesis
    by (simp only: first_match_group_def m e1 [symmetric])
qed

lemma first_match_group_rest_ascii:
  "first_match_group T ic g r s = Some (s1, s2) \<Longrightarrow> ascii s \<Longrightarrow> ascii s1 \<and> ascii s2"
  using first_match_group_Some [of T ic g r s s1 s2] by auto

lemma findall_group_ascii:
  assumes ok: "unicode_ok T" and g: "ascii_rx g" and r: "ascii_rx r"
  shows "ascii s \<Longrightarrow> findall_group T ic g r s = findall_group basic_latin ic g r s"
  using ok g r
proof (induction T ic g r s rule: findall_group.induct)
  case (1 T ic g r s)
  have fm: "first_match_group basic_latin ic g r s = first_match_group T ic g r s"
    using first_match_group_ascii [OF "1.prems"(2) "1.prems"(3) "1.prems"(4) "1.prems"(1)] by simp
  note unf = findall_group.simps [of T ic g r s] findall_group.simps [of basic_latin ic g r s]
  show ?case
  proof (cases "first_match_group T ic g r s")
    case None
    show ?thesis
    proof (cases s)
      case Nil
      with None fm show ?thesis by (simp add: unf)
    next
      case (Cons c cs)
      with "1.prems" have "ascii cs" by simp
      with "1.IH"(1) [OF None Cons] "1.prems"
      have "findall_group T ic g r cs = findall_group basic_latin ic g r cs" by simp
      with None fm Cons show ?thesis by (simp add: unf)
    qed
  next
    case (Some p)
    obtain s1 s2 where p: "p = (s1, s2)" by (cases p)
    have as: "ascii s1 \<and> ascii s2"
      using Some [unfolded p] "1.prems"(1) by (rule first_match_group_rest_ascii)
    show ?thesis
    proof (cases "length s2 < length s")
      case True
      with "1.IH"(2) [OF Some p [symmetric] True] "1.prems" as
      have "findall_group T ic g r s2 = findall_group basic_latin ic g r s2" by simp
      with Some p fm True show ?thesis by (simp add: unf)
    next
      case False
      show ?thesis
      proof (cases s)
        case Nil
        with Some p fm False show ?thesis by (simp add: unf)
      next
        case (Cons c cs)
        with "1.prems" have "ascii cs" by simp
        with "1.IH"(3) [OF Some p [symmetric] False Cons] "1.prems"
        have "findall_group T ic g r cs = findall_group basic_latin ic g r cs" by simp
        with Some p fm False Cons show ?thesis by (simp add: unf)
      qed
    qed
  qed
qed

lemma findall_group_elem_ascii: "e \<in> set (findall_group T ic g r s) \<Longrightarrow> ascii s \<Longrightarrow> ascii e"
proof (induction T ic g r s rule: findall_group.induct)
  case (1 T ic g r s)
  show ?case
  proof (cases "first_match_group T ic g r s")
    case None
    with 1 show ?thesis by (cases s) (auto simp: findall_group.simps [of T ic g r s])
  next
    case (Some p)
    obtain s1 s2 where p: "p = (s1, s2)" by (cases p)
    have as: "ascii s1 \<and> ascii s2"
      using Some [unfolded p] "1.prems"(2) by (rule first_match_group_rest_ascii)
    have tk: "ascii (take (length s - length s1) s)" using "1.prems"(2) by (rule ascii_take)
    show ?thesis
    proof (cases "length s2 < length s")
      case True
      with 1 Some p tk as show ?thesis by (auto simp: findall_group.simps [of T ic g r s])
    next
      case False
      with 1 Some p tk show ?thesis by (cases s) (auto simp: findall_group.simps [of T ic g r s])
    qed
  qed
qed

lemma re_search_ascii:
  assumes ok: "unicode_ok T" and r: "ascii_rx r"
  shows "ascii s \<Longrightarrow> re_search T ic r s = re_search basic_latin ic r s"
proof (induction s)
  case Nil
  show ?case using first_match_ascii [OF ok r, of "[]" ic] by simp
next
  case (Cons c cs)
  then have "re_search T ic r cs = re_search basic_latin ic r cs" by simp
  with first_match_ascii [OF ok r Cons.prems, of ic] show ?case by simp
qed

lemma Str_ascii: "ascii kw \<Longrightarrow> ascii_rx (Str kw)"
  by (induction kw) (simp_all add: Str_def)

lemma matched_ascii:
  assumes ok: "unicode_ok T" and t: "list_all ascii terms" and s: "ascii txt"
  shows "matched T terms txt = matched basic_latin terms txt"
  unfolding matched_def
proof (rule filter_cong [OF refl])
  fix kw assume "kw \<in> set terms"
  with t have "ascii_rx (re_escape kw)" by (simp add: re_escape_def Str_ascii list_all_iff)
  from re_search_ascii [OF ok this s]
  show "re_search T True (re_escape kw) txt = re_search basic_latin True (re_escape kw) txt" .
qed

lemma patterns_ascii:
  "ascii_rx EMAIL_REGEX" "ascii_rx PHONE_REGEX" "ascii_rx EXP_NUMBER" "ascii_rx EXP_UNIT"
  by code_simp+

lemma digits_value_ascii:
  assumes ok: "unicode_ok T" and d: "list_all (\<lambda>c. 48 \<le> c \<and> c \<le> 57) ds"
  shows "digits_value T ds = digits_value basic_latin ds"
proof -
  have "foldl (\<lambda>n c. 10 * n + digit_value T c) k ds
      = foldl (\<lambda>n c. 10 * n + digit_value basic_latin c) k ds" for k
    using d
  proof (induction ds arbitrary: k)
    case Nil
    show ?case by simp
  next
    case (Cons c cs)
    then have "digit_value T c = digit_value basic_latin c"
      using ok_digit_value [OF ok, of c] by (simp add: basic_latin_def)
    with Cons show ?case by simp
  qed
  then show ?thesis by (simp add: digits_value_def)
qed

lemma digit_ascii:
  "unicode_ok T \<Longrightarrow> ascii s \<Longrightarrow> list_all (is_digit T) s \<Longrightarrow> list_all (\<lambda>c. 48 \<le> c \<and> c \<le> 57) s"
  using ok_digit [of T] by (auto simp: ascii_def list_all_iff)

lemma is_digit_ascii:
  "unicode_ok T \<Longrightarrow> c < 128 \<Longrightarrow> is_digit T c = is_digit basic_latin c"
  by (simp add: ok_digit basic_latin_def)

lemma dec_value_ascii:
  assumes ok: "unicode_ok T" and m: "m \<in> decimal_strings T" and a: "ascii m"
  shows "dec_value T m = dec_value basic_latin m"
proof -
  note nd = not_digit_dot [OF ok]
  from m obtain ip fp' where g: "m = ip @ fp'" "ip \<noteq> []" "list_all (is_digit T) ip"
    and fp': "fp' = [] \<or> (\<exists>fp. fp' = 46 # fp \<and> fp \<noteq> [] \<and> list_all (is_digit T) fp)"
    unfolding decimal_strings_def by blast
  have tw: "takeWhile (is_digit basic_latin) m = takeWhile (is_digit T) m"
    using a is_digit_ascii [OF ok] by (intro takeWhile_cong refl) (auto simp: ascii_def list_all_iff)
  have dw: "dropWhile (is_digit basic_latin) m = dropWhile (is_digit T) m"
    using a is_digit_ascii [OF ok] by (intro dropWhile_cong refl) (auto simp: ascii_def list_all_iff)
  have ipd: "list_all (\<lambda>c. 48 \<le> c \<and> c \<le> 57) ip"
    using digit_ascii [OF ok _ g(3)] a g(1) by simp
  from fp' obtain fp where fp: "takeWhile (is_digit T) m = ip" "drop 1 (dropWhile (is_digit T) m) = fp"
    "list_all (is_digit T) fp" "ascii fp"
  proof
    assume "fp' = []"
    with g have "takeWhile (is_digit T) m = ip" "drop 1 (dropWhile (is_digit T) m) = []"
      by (simp_all add: takeWhile_all dropWhile_all)
    then show ?thesis using that [of "[]"] by simp
  next
    assume "\<exists>fp. fp' = 46 # fp \<and> fp \<noteq> [] \<and> list_all (is_digit T) fp"
    then obtain fp where f: "fp' = 46 # fp" "list_all (is_digit T) fp" by blast
    with g nd have "takeWhile (is_digit T) m = ip" "drop 1 (dropWhile (is_digit T) m) = fp"
      by (simp_all add: takeWhile_digits dropWhile_digits)
    moreover have "ascii fp" using a g(1) f(1) by simp
    ultimately show ?thesis using that [of fp] f(2) by simp
  qed
  have fpd: "list_all (\<lambda>c. 48 \<le> c \<and> c \<le> 57) fp"
    using digit_ascii [OF ok fp(4) fp(3)] .
  show ?thesis
    unfolding dec_value_def tw dw fp Let_def
    by (simp only: digits_value_ascii [OF ok ipd] digits_value_ascii [OF ok fpd])
qed

lemma exp_nums_ascii:
  assumes ok: "unicode_ok T" and a: "ascii txt"
  shows "exp_nums T txt = exp_nums basic_latin txt"
proof -
  let ?nums = "findall_group T True EXP_NUMBER EXP_UNIT txt"
  have n: "findall_group basic_latin True EXP_NUMBER EXP_UNIT txt = ?nums"
    using findall_group_ascii [OF ok patterns_ascii(3) patterns_ascii(4) a] by simp
  have "map (\<lambda>m. to_float (dec_value T m)) ?nums = map (\<lambda>m. to_float (dec_value basic_latin m)) ?nums"
  proof (rule map_cong [OF refl])
    fix m assume m: "m \<in> set ?nums"
    then have "m \<in> lang T True EXP_NUMBER" by (rule findall_group_in_lang)
    then have d: "m \<in> decimal_strings T" unfolding lang_EXP_NUMBER_decimal [OF ok] .
    have "ascii m" using m a by (rule findall_group_elem_ascii)
    with dec_value_ascii [OF ok d]
    show "to_float (dec_value T m) = to_float (dec_value basic_latin m)" by simp
  qed
  then show ?thesis by (simp only: exp_nums_def n)
qed

lemma experience_ascii:
  "unicode_ok T \<Longrightarrow> ascii txt \<Longrightarrow> experience T txt = experience basic_latin txt"
  by (simp add: experience_def exp_nums_ascii)

lemma split_on_ascii: "ascii s \<Longrightarrow> p \<in> set (split_on sep s) \<Longrightarrow> ascii p"
proof (induction s arbitrary: p)
  case Nil
  then show ?case by simp
next
  case (Cons c s)
  obtain h t where ht: "split_on sep s = h # t"
    using split_on_nonempty [of sep s] by (cases "split_on sep s") auto
  from Cons.prems(1) have c: "c < 128" and s: "ascii s" by simp_all
  have h: "ascii h" and t: "\<And>q. q \<in> set t \<Longrightarrow> ascii q"
    using Cons.IH [OF s] ht by simp_all
  from Cons.prems(2) ht c h t show ?case by (auto split: if_splits)
qed

lemma tokens_ascii: "ascii s \<Longrightarrow> p \<in> set (tokens sep s) \<Longrightarrow> ascii p"
  unfolding tokens_split_on [symmetric] using split_on_ascii [of s p sep] by simp

lemma capitalize_ascii:
  "unicode_ok T \<Longrightarrow> ascii s \<Longrightarrow> capitalize T s = capitalize basic_latin s"
  by (simp add: ok_capitalize basic_latin_def)

lemma extract_contacts_ascii:
  assumes ok: "unicode_ok T" and a: "ascii txt"
  shows "extract_contacts T txt = extract_contacts basic_latin txt"
proof -
  let ?es = "findall T False EMAIL_REGEX txt"
  have e: "findall basic_latin False EMAIL_REGEX txt = ?es"
    using findall_ascii [OF ok patterns_ascii(1) a] by simp
  have p: "findall basic_latin False PHONE_REGEX txt = findall T False PHONE_REGEX txt"
    using findall_ascii [OF ok patterns_ascii(2) a] by simp
  have n: "fst (extract_contacts T txt) = fst (extract_contacts basic_latin txt)"
  proof (cases ?es)
    case Nil
    then show ?thesis unfolding extract_contacts_name e by simp
  next
    case (Cons x xs)
    then have "x \<in> set ?es" by simp
    then have "ascii x" using a by (rule findall_elem_ascii)
    then have l: "ascii (local_part x)" unfolding local_part_def by (rule ascii_takeWhile)
    have mc: "map (capitalize T) (tokens is_name_sep (local_part x))
        = map (capitalize basic_latin) (tokens is_name_sep (local_part x))"
      by (rule map_cong [OF refl]) (rule capitalize_ascii [OF ok], rule tokens_ascii [OF l])
    show ?thesis unfolding extract_contacts_name e by (simp only: Cons mc list.case)
  qed
  have s: "snd (extract_contacts T txt) = snd (extract_contacts basic_latin txt)"
    unfolding extract_contacts_def Let_def e p by (simp only: snd_conv)
  from n s show ?thesis by (rule prod_eqI)
qed

lemma the_record_ascii:
  assumes ok: "unicode_ok T" and a: "ascii txt"
    and t: "list_all ascii keywords" "list_all ascii domains" "list_all ascii tools"
      "list_all ascii skillsets"
  shows "the_record T keywords exp_req relax domains tools skillsets path txt
       = the_record basic_latin keywords exp_req relax domains tools skillsets path txt"
  unfolding the_record_def match_pct_def
  by (simp only: extract_contacts_ascii [OF ok a] experience_ascii [OF ok a]
        matched_ascii [OF ok t(1) a] matched_ascii [OF ok t(2) a] matched_ascii [OF ok t(3) a]
        matched_ascii [OF ok t(4) a])

lemma make_record_ascii:
  assumes ok: "unicode_ok T" and a: "ascii txt"
    and t: "list_all ascii keywords" "list_all ascii domains" "list_all ascii tools"
      "list_all ascii skillsets"
  shows "make_record T keywords exp_req relax domains tools skillsets path txt
       = make_record basic_latin keywords exp_req relax domains tools skillsets path txt"
  unfolding make_record_Inr [OF ok] make_record_Inr [OF basic_latin_ok]
    the_record_ascii [OF ok a t] ..

lemma splitext_ascii: "ascii p \<Longrightarrow> ascii (snd (splitext p))"
  by (simp add: splitext_def Let_def ascii_drop)

lemma extract_text_ascii:
  assumes ok: "unicode_ok T" and a: "ascii path"
  shows "extract_text_from_file T env path = extract_text_from_file basic_latin env path"
proof -
  have "lower T (snd (splitext path)) = lower basic_latin (snd (splitext path))"
    using ok_lower [OF ok splitext_ascii [OF a]] by (simp add: basic_latin_def)
  then show ?thesis unfolding extract_cases by simp
qed

lemma cap_first_ascii:
  "unicode_ok T \<Longrightarrow> ascii s \<Longrightarrow> cap_first T s = cap_first basic_latin s"
  using capitalize_ascii [of T "[hd s]"] by (cases s) (simp_all add: cap_first_def)

lemma spec_infer_name_ascii:
  assumes ok: "unicode_ok T" and a: "ascii txt"
  shows "spec_infer_name T txt = spec_infer_name basic_latin txt"
proof -
  let ?es = "findall T False EMAIL_REGEX txt"
  have e: "findall basic_latin False EMAIL_REGEX txt = ?es"
    using findall_ascii [OF ok patterns_ascii(1) a] by simp
  show ?thesis
  proof (cases ?es)
    case Nil
    then show ?thesis unfolding spec_infer_name_def e by (simp only: list.case)
  next
    case (Cons x xs)
    then have "x \<in> set ?es" by simp
    then have "ascii x" using a by (rule findall_elem_ascii)
    then have l: "ascii (local_part x)" unfolding local_part_def by (rule ascii_takeWhile)
    have mc: "map (cap_first T) (tokens is_name_sep (local_part x))
        = map (cap_first basic_latin) (tokens is_name_sep (local_part x))"
      by (rule map_cong [OF refl]) (rule cap_first_ascii [OF ok], rule tokens_ascii [OF l])
    show ?thesis unfolding spec_infer_name_def e by (simp only: Cons mc list.case)
  qed
qed

section \<open>Properties of the program\<close>

text \<open>
  The theorems hold for every character database \<open>T\<close>; those that depend on a fact of
  Unicode assume \<open>unicode_ok T\<close>, which lists the facts used. The examples are evaluated
  with \<open>basic_latin\<close>; their texts, terms and paths are of Basic Latin, so that by the
  lemmas \<open>make_record_ascii\<close>, \<open>extract_contacts_ascii\<close>, \<open>spec_infer_name_ascii\<close> and
  \<open>extract_text_ascii\<close> every database that satisfies \<open>unicode_ok\<close> gives the same.
\<close>

text \<open>
  C10: each matched list (keywords, domains, tools, skills) is a sublist of the list of
  terms supplied, in the order supplied: every matched term is one of the supplied terms,
  and the matched list is no longer than the list supplied. The record holds the four matched
  lists, each joined by semicolons.
\<close>

theorem matched_sublist:
  "subseq (matched T terms txt) terms
   \<and> set (matched T terms txt) \<subseteq> set terms
   \<and> length (matched T terms txt) \<le> length terms
   \<and> (unicode_ok T \<longrightarrow>
        (\<exists>r. make_record T keywords exp_req relax domains tools skillsets path txt = Inr r
          \<and> Matched_Keywords r = join (asc '';'') (matched T keywords txt)
          \<and> Domain' r = join (asc '';'') (matched T domains txt)
          \<and> Tools r = join (asc '';'') (matched T tools txt)
          \<and> Skillset r = join (asc '';'') (matched T skillsets txt)))"
proof -
  have "subseq (matched T terms txt) terms" by (simp add: matched_def)
  moreover have "set (matched T terms txt) \<subseteq> set terms" by (auto simp: matched_def)
  moreover have "length (matched T terms txt) \<le> length terms" by (simp add: matched_def)
  moreover have "\<exists>r. make_record T keywords exp_req relax domains tools skillsets path txt = Inr r
          \<and> Matched_Keywords r = join (asc '';'') (matched T keywords txt)
          \<and> Domain' r = join (asc '';'') (matched T domains txt)
          \<and> Tools r = join (asc '';'') (matched T tools txt)
          \<and> Skillset r = join (asc '';'') (matched T skillsets txt)"
    if ok: "unicode_ok T"
    unfolding make_record_Inr [OF ok] by (simp add: the_record_def)
  ultimately show ?thesis by blast
qed

theorem matched_sublist_witness:
  "subseq (matched basic_latin [asc ''TCL'', asc ''Verilog'', asc ''Perl''] (asc ''verilog and tcl''))
          [asc ''TCL'', asc ''Verilog'', asc ''Perl'']
   \<and> matched basic_latin [asc ''TCL'', asc ''Verilog'', asc ''Perl''] (asc ''verilog and tcl'')
       = [asc ''TCL'', asc ''Verilog'']
   \<and> (\<exists>r. make_record basic_latin [asc ''TCL'', asc ''Verilog'', asc ''Perl''] None False [] [] []
             (asc ''cv.pdf'') (asc ''verilog and tcl'') = Inr r
          \<and> Matched_Keywords r = asc ''TCL;Verilog'')"
proof -
  have m: "matched basic_latin [asc ''TCL'', asc ''Verilog'', asc ''Perl''] (asc ''verilog and tcl'')
             = [asc ''TCL'', asc ''Verilog'']"
    by code_simp
  have j: "join (asc '';'') [asc ''TCL'', asc ''Verilog''] = asc ''TCL;Verilog''"
    by code_simp
  from matched_sublist [of basic_latin "[asc ''TCL'', asc ''Verilog'', asc ''Perl'']"
      "asc ''verilog and tcl''" "[asc ''TCL'', asc ''Verilog'', asc ''Perl'']" None False "[]" "[]" "[]"
      "asc ''cv.pdf''"]
    basic_latin_ok
  show ?thesis unfolding m j by blast
qed

text \<open>
  C5: \<open>extract_text_from_file\<close> returns a string for every path and every behaviour of the
  libraries, it never raises. A path whose extension is neither \<^verbatim>\<open>.pdf\<close> nor \<^verbatim>\<open>.docx\<close>
  gives the empty string; so does a PDF whose extraction fails, and a DOCX on which both
  the structured reader and the fallback fail (the archive does not open, the entry
  \<^verbatim>\<open>word/document.xml\<close> is missing, or its XML does not parse). Each failure is logged
  as a warning with the file name.
\<close>

theorem extract_text_never_raises:
  "(\<exists>txt warnings. extract_text_from_file T env path = Inr (txt, warnings))
   \<and> (lower T (snd (splitext path)) \<noteq> asc ''.pdf'' \<and> lower T (snd (splitext path)) \<noteq> asc ''.docx''
        \<longrightarrow> extract_text_from_file T env path = Inr ([], []))
   \<and> (lower T (snd (splitext path)) = asc ''.pdf'' \<and> pdf_extract env path = Inl e
        \<longrightarrow> extract_text_from_file T env path = Inr ([], [LogWarning (basename path) e]))
   \<and> (lower T (snd (splitext path)) = asc ''.docx'' \<and> Document_paragraphs env path = Inl e
        \<and> ZipFile env path = Inl e'
        \<longrightarrow> extract_text_from_file T env path = Inr ([], [LogWarning (basename path) e']))
   \<and> (lower T (snd (splitext path)) = asc ''.docx'' \<and> Document_paragraphs env path = Inl e
        \<and> ZipFile env path = Inr z \<and> z (asc ''word/document.xml'') = None
        \<longrightarrow> extract_text_from_file T env path = Inr ([], [LogWarning (basename path) KeyError]))
   \<and> (lower T (snd (splitext path)) = asc ''.docx'' \<and> Document_paragraphs env path = Inl e
        \<and> ZipFile env path = Inr z \<and> z (asc ''word/document.xml'') = Some xml
        \<and> ET_fromstring env xml = Inl e'
        \<longrightarrow> extract_text_from_file T env path = Inr ([], [LogWarning (basename path) e']))"
proof -
  have ne: "asc ''.docx'' \<noteq> asc ''.pdf''" by (simp add: asc_def)
  show ?thesis
    unfolding extract_cases docx_fallback_cases
    using ne by (auto split: sum.splits option.splits)
qed

theorem extract_text_never_raises_witness:
  "extract_text_from_file basic_latin broken_env (asc ''/tmp/up/notes.txt'') = Inr ([], [])
   \<and> extract_text_from_file basic_latin broken_env (asc ''/tmp/up/cv.PDF'') =
       Inr ([], [LogWarning (asc ''cv.PDF'') (LibraryError ''PDFSyntaxError'')])
   \<and> extract_text_from_file basic_latin broken_env (asc ''/tmp/up/cv.docx'') =
       Inr ([], [LogWarning (asc ''cv.docx'') (LibraryError ''BadZipFile'')])
   \<and> extract_text_from_file basic_latin (fallback_env Map.empty (Element (asc ''t'') None []))
         (asc ''/tmp/up/cv.docx'') =
       Inr ([], [LogWarning (asc ''cv.docx'') KeyError])
   \<and> extract_text_from_file basic_latin
         (fallback_env [asc ''word/document.xml'' \<mapsto> ''<bad''] (Element (asc ''t'') None []))
         (asc ''/tmp/up/cv.docx'') =
       Inr ([], [LogWarning (asc ''cv.docx'') (LibraryError ''ParseError'')])"
proof -
  have e1: "lower basic_latin (snd (splitext (asc ''/tmp/up/notes.txt''))) = [46, 116, 120, 116]"
    by code_simp
  have e2: "lower basic_latin (snd (splitext (asc ''/tmp/up/cv.PDF''))) = asc ''.pdf''" by code_simp
  have e3: "lower basic_latin (snd (splitext (asc ''/tmp/up/cv.docx''))) = asc ''.docx''" by code_simp
  have b2: "basename (asc ''/tmp/up/cv.PDF'') = asc ''cv.PDF''" by code_simp
  have b3: "basename (asc ''/tmp/up/cv.docx'') = asc ''cv.docx''" by code_simp
  have n: "[46, 116, 120, 116] \<noteq> asc ''.pdf''" "[46, 116, 120, 116] \<noteq> asc ''.docx''"
    by (simp_all add: asc_def)
  let ?z = "[asc ''word/document.xml'' \<mapsto> ''<bad'']"
  note t = extract_text_never_raises
  show ?thesis
    using t [of basic_latin broken_env "asc ''/tmp/up/notes.txt''"]
      t [of basic_latin broken_env "asc ''/tmp/up/cv.PDF''" "LibraryError ''PDFSyntaxError''"]
      t [of basic_latin broken_env "asc ''/tmp/up/cv.docx''" "LibraryError ''PackageNotFoundError''"
           "LibraryError ''BadZipFile''"]
      t [of basic_latin "fallback_env Map.empty (Element (asc ''t'') None [])" "asc ''/tmp/up/cv.docx''"
           "LibraryError ''PackageNotFoundError''" _ Map.empty]
      t [of basic_latin "fallback_env ?z (Element (asc ''t'') None [])"
           "asc ''/tmp/up/cv.docx''" "LibraryError ''PackageNotFoundError''"
           "LibraryError ''ParseError''" ?z "''<bad''"]
    unfolding e1 e2 e3 b2 b3
    by (simp add: broken_env_def fallback_env_def n)
qed

text \<open>
  C1: for every list of paths, the empty list included, every criteria and every behaviour
  of the libraries, \<open>run_matching\<close> returns (it never raises) a report with exactly one
  record per path, in the order of the paths: the record at position \<open>i\<close> is the one made
  from the text of path \<open>i\<close> and carries its file name. A path whose extraction fails, and
  so gives the empty text, still has its record, with empty name, email and phone and
  experience 0.0, and with no matched keyword and percentage 0.0 when no keyword is the
  empty string.
\<close>

theorem run_matching_one_record_per_path:
  assumes ok: "unicode_ok T"
  shows "\<exists>records evs.
     run_matching T env paths keywords exp_req relax domains tools skillsets = Inr (records, evs)
     \<and> length records = length paths
     \<and> map Filename records = map basename paths
     \<and> (\<forall>i < length paths. \<exists>txt w.
          extract_text_from_file T env (paths ! i) = Inr (txt, w)
          \<and> make_record T keywords exp_req relax domains tools skillsets (paths ! i) txt
               = Inr (records ! i)
          \<and> (txt = [] \<longrightarrow>
                Name (records ! i) = [] \<and> Email (records ! i) = [] \<and> Phone (records ! i) = []
                \<and> Experience_Years (records ! i) = Fin 0
                \<and> ([] \<notin> set keywords \<longrightarrow>
                     Matched_Keywords (records ! i) = [] \<and> Match_Percentage (records ! i) = 0)))"
proof -
  let ?row = "\<lambda>p. the_record T keywords exp_req relax domains tools skillsets p (text_of T env p)"
  from run_matching_Inr [OF ok, of env paths "keywords" exp_req relax domains tools skillsets]
  obtain evs where run:
    "run_matching T env paths keywords exp_req relax domains tools skillsets = Inr (map ?row paths, evs)"
    by blast
  have names: "map Filename (map ?row paths) = map basename paths"
    by (simp add: the_record_Filename)
  have rows: "\<exists>txt w.
          extract_text_from_file T env (paths ! i) = Inr (txt, w)
          \<and> make_record T keywords exp_req relax domains tools skillsets (paths ! i) txt
               = Inr (map ?row paths ! i)
          \<and> (txt = [] \<longrightarrow>
                Name (map ?row paths ! i) = [] \<and> Email (map ?row paths ! i) = []
                \<and> Phone (map ?row paths ! i) = []
                \<and> Experience_Years (map ?row paths ! i) = Fin 0
                \<and> ([] \<notin> set keywords \<longrightarrow>
                     Matched_Keywords (map ?row paths ! i) = []
                     \<and> Match_Percentage (map ?row paths ! i) = 0))"
    if "i < length paths" for i
  proof (intro exI conjI)
    show "extract_text_from_file T env (paths ! i)
            = Inr (text_of T env (paths ! i), warnings_of T env (paths ! i))"
      by (rule extract_Inr)
    show "make_record T keywords exp_req relax domains tools skillsets (paths ! i)
            (text_of T env (paths ! i)) = Inr (map ?row paths ! i)"
      using that by (simp add: make_record_Inr [OF ok])
    show "text_of T env (paths ! i) = [] \<longrightarrow>
                Name (map ?row paths ! i) = [] \<and> Email (map ?row paths ! i) = []
                \<and> Phone (map ?row paths ! i) = []
                \<and> Experience_Years (map ?row paths ! i) = Fin 0
                \<and> ([] \<notin> set keywords \<longrightarrow>
                     Matched_Keywords (map ?row paths ! i) = []
                     \<and> Match_Percentage (map ?row paths ! i) = 0)"
      using that the_record_empty_text [of T "keywords" exp_req relax domains tools skillsets "paths ! i"]
        the_record_empty_text_terms [of "keywords" T exp_req relax domains tools skillsets "paths ! i"]
      by simp
  qed
  show ?thesis
    apply (rule exI [of _ "map ?row paths"])
    apply (rule exI [of _ evs])
    using run names rows by simp
qed

theorem run_matching_one_record_per_path_witness:
  "\<exists>records evs.
     run_matching basic_latin broken_env [asc ''/up/a.pdf'', asc ''/up/b.docx''] [asc ''Verilog'']
       (Some 5) True [] [] [] = Inr (records, evs)
     \<and> length records = 2
     \<and> map Filename records = [asc ''a.pdf'', asc ''b.docx'']
     \<and> Name (records ! 1) = [] \<and> Experience_Years (records ! 1) = Fin 0
     \<and> Match_Percentage (records ! 1) = 0"
proof -
  let ?paths = "[asc ''/up/a.pdf'', asc ''/up/b.docx'']"
  let ?kws = "[asc ''Verilog'']"
  have b: "map basename ?paths = [asc ''a.pdf'', asc ''b.docx'']" by code_simp
  have x: "extract_text_from_file basic_latin broken_env (asc ''/up/b.docx'') =
             Inr ([], [LogWarning (asc ''b.docx'') (LibraryError ''BadZipFile'')])"
    by code_simp
  have k: "[] \<notin> set ?kws" by (simp add: asc_def)
  from run_matching_one_record_per_path
    [OF basic_latin_ok, of broken_env ?paths ?kws "Some 5" True "[]" "[]" "[]"]
  obtain records evs where r:
    "run_matching basic_latin broken_env ?paths ?kws (Some 5) True [] [] [] = Inr (records, evs)"
    "length records = length ?paths"
    "map Filename records = map basename ?paths"
    and rows: "\<forall>i < length ?paths. \<exists>txt w.
          extract_text_from_file basic_latin broken_env (?paths ! i) = Inr (txt, w)
          \<and> make_record basic_latin ?kws (Some 5) True [] [] [] (?paths ! i) txt = Inr (records ! i)
          \<and> (txt = [] \<longrightarrow>
                Name (records ! i) = [] \<and> Email (records ! i) = [] \<and> Phone (records ! i) = []
                \<and> Experience_Years (records ! i) = Fin 0
                \<and> ([] \<notin> set ?kws \<longrightarrow>
                     Matched_Keywords (records ! i) = [] \<and> Match_Percentage (records ! i) = 0))"
    by blast
  have "(1::nat) < length ?paths" by simp
  with rows obtain tx w where
    t: "extract_text_from_file basic_latin broken_env (?paths ! 1) = Inr (tx, w)"
    and e: "tx = [] \<longrightarrow>
                Name (records ! 1) = [] \<and> Email (records ! 1) = [] \<and> Phone (records ! 1) = []
                \<and> Experience_Years (records ! 1) = Fin 0
                \<and> ([] \<notin> set ?kws \<longrightarrow>
                     Matched_Keywords (records ! 1) = [] \<and> Match_Percentage (records ! 1) = 0)"
    by blast
  from t x have "tx = []" by simp
  with e k have "Name (records ! 1) = [] \<and> Experience_Years (records ! 1) = Fin 0
     \<and> Match_Percentage (records ! 1) = 0"
    by blast
  with r b show ?thesis by simp
qed

text \<open>
  C9: for a fixed world and fixed criteria there is one function \<open>row\<close> of a single path
  such that, for every list of paths, the report is \<open>map row paths\<close>; \<open>row p\<close> is the record
  \<open>make_record\<close> builds from the criteria, the file name and the text of \<open>p\<close> alone. So a
  record depends neither on its position nor on the other documents, and re-ordering the
  paths by any list of indices re-orders the records alike and changes none of them.
\<close>

theorem records_independent:
  assumes ok: "unicode_ok T"
  shows "\<exists>row.
     (\<forall>paths. \<exists>evs.
        run_matching T env paths keywords exp_req relax domains tools skillsets = Inr (map row paths, evs))
     \<and> (\<forall>p. \<exists>txt w.
          extract_text_from_file T env p = Inr (txt, w)
          \<and> make_record T keywords exp_req relax domains tools skillsets p txt = Inr (row p))
     \<and> (\<forall>paths idx. (\<forall>i \<in> set idx. i < length paths) \<longrightarrow>
          (\<exists>records evs records' evs'.
             run_matching T env paths keywords exp_req relax domains tools skillsets = Inr (records, evs)
             \<and> run_matching T env (map ((!) paths) idx) keywords exp_req relax domains tools skillsets
                 = Inr (records', evs')
             \<and> records' = map ((!) records) idx))"
proof -
  let ?row = "\<lambda>p. the_record T keywords exp_req relax domains tools skillsets p (text_of T env p)"
  have run: "\<exists>evs. run_matching T env paths keywords exp_req relax domains tools skillsets
               = Inr (map ?row paths, evs)" for paths
    by (rule run_matching_Inr [OF ok])
  have one: "\<exists>txt w. extract_text_from_file T env p = Inr (txt, w)
          \<and> make_record T keywords exp_req relax domains tools skillsets p txt = Inr (?row p)" for p
    using extract_Inr [of T env p] make_record_Inr [OF ok] by blast
  have perm: "\<exists>records evs records' evs'.
             run_matching T env paths keywords exp_req relax domains tools skillsets = Inr (records, evs)
             \<and> run_matching T env (map ((!) paths) idx) keywords exp_req relax domains tools skillsets
                 = Inr (records', evs')
             \<and> records' = map ((!) records) idx"
    if "\<forall>i \<in> set idx. i < length paths" for paths idx
  proof -
    from run [of paths] obtain evs where a:
      "run_matching T env paths keywords exp_req relax domains tools skillsets = Inr (map ?row paths, evs)"
      by blast
    from run [of "map ((!) paths) idx"] obtain evs' where b:
      "run_matching T env (map ((!) paths) idx) keywords exp_req relax domains tools skillsets
         = Inr (map ?row (map ((!) paths) idx), evs')"
      by blast
    have "map ?row (map ((!) paths) idx) = map ((!) (map ?row paths)) idx"
      using that by simp
    with a b show ?thesis by metis
  qed
  show ?thesis
    apply (rule exI [of _ ?row])
    using run one perm by blast
qed

theorem records_independent_witness:
  "\<exists>records evs records' evs'.
     run_matching basic_latin broken_env [asc ''a.pdf'', asc ''b.docx''] [asc ''Verilog''] None False
       [] [] [] = Inr (records, evs)
     \<and> run_matching basic_latin broken_env [asc ''b.docx'', asc ''a.pdf''] [asc ''Verilog''] None False
       [] [] [] = Inr (records', evs')
     \<and> records' = [records ! 1, records ! 0]"
proof -
  let ?paths = "[asc ''a.pdf'', asc ''b.docx'']"
  from records_independent [OF basic_latin_ok, of broken_env "[asc ''Verilog'']" None False "[]" "[]" "[]"]
  obtain row where
    "\<forall>paths idx. (\<forall>i \<in> set idx. i < length paths) \<longrightarrow>
          (\<exists>records evs records' evs'.
             run_matching basic_latin broken_env paths [asc ''Verilog''] None False [] [] []
               = Inr (records, evs)
             \<and> run_matching basic_latin broken_env (map ((!) paths) idx) [asc ''Verilog''] None False
                  [] [] [] = Inr (records', evs')
             \<and> records' = map ((!) records) idx)"
    by blast
  then have "(\<forall>i \<in> set [1, 0 :: nat]. i < length ?paths) \<longrightarrow>
          (\<exists>records evs records' evs'.
             run_matching basic_latin broken_env ?paths [asc ''Verilog''] None False [] [] []
               = Inr (records, evs)
             \<and> run_matching basic_latin broken_env (map ((!) ?paths) [1, 0])
                  [asc ''Verilog''] None False [] [] []
                 = Inr (records', evs')
             \<and> records' = map ((!) records) [1, 0])"
    by blast
  then show ?thesis by simp
qed

text \<open>
  C2: for every text and every keyword list, the match percentage of the record is 0.0
  when the keyword list is empty, and otherwise the number of matched keywords divided by
  the number of keywords, times 100, rounded to two decimals, each step in floating point.
  Nothing but the keyword list and the text enters it (domains, tools and skills do not),
  and it lies between 0 and 100.
\<close>

theorem match_percentage_formula:
  assumes ok: "unicode_ok T"
  shows "\<exists>r. make_record T keywords exp_req relax domains tools skillsets path txt = Inr r
     \<and> Match_Percentage r =
          (if keywords = [] then 0
           else py_round
                  (fmul (fl (of_nat (length (matched T keywords txt)) / of_nat (length keywords))) 100) 2)
     \<and> 0 \<le> Match_Percentage r \<and> Match_Percentage r \<le> 100"
proof -
  let ?r = "the_record T keywords exp_req relax domains tools skillsets path txt"
  have "make_record T keywords exp_req relax domains tools skillsets path txt = Inr ?r"
    by (rule make_record_Inr [OF ok])
  moreover have "Match_Percentage ?r = match_pct T keywords txt"
    by (simp add: the_record_def)
  ultimately show ?thesis
    using match_pct_range [of T "keywords" "txt"] by (simp add: match_pct_def)
qed

text \<open>Two keywords of three give 66.67, the float nearest to it.\<close>

theorem match_percentage_formula_witness:
  "(\<exists>r. make_record basic_latin [asc ''Verilog'', asc ''TCL'', asc ''Perl''] None False [asc ''VLSI'']
          [] [] (asc ''cv.pdf'') (asc ''perl, verilog'') = Inr r
     \<and> Match_Percentage r = 4691484174324859 / 70368744177664)
   \<and> (\<exists>r. make_record basic_latin [] None False [asc ''VLSI''] [] [] (asc ''cv.pdf'')
          (asc ''perl, verilog'') = Inr r
     \<and> Match_Percentage r = 0)"
proof -
  let ?kws = "[asc ''Verilog'', asc ''TCL'', asc ''Perl'']"
  have m: "matched basic_latin ?kws (asc ''perl, verilog'') = [asc ''Verilog'', asc ''Perl'']"
    by code_simp
  have f: "py_round (fmul (fl (of_nat (length [asc ''Verilog'', asc ''Perl'']) / of_nat (length ?kws))) 100) 2
           = 4691484174324859 / 70368744177664"
    by code_simp
  have k: "?kws \<noteq> []" by simp
  show ?thesis
    using match_percentage_formula
            [OF basic_latin_ok, of ?kws None False "[asc ''VLSI'']" "[]" "[]" "asc ''cv.pdf''"
               "asc ''perl, verilog''"]
          match_percentage_formula
            [OF basic_latin_ok, of "[]" None False "[asc ''VLSI'']" "[]" "[]" "asc ''cv.pdf''"
               "asc ''perl, verilog''"]
    unfolding m f by simp blast
qed

text \<open>
  C8, as stated, fails: on a DOCX whose structured reader fails and whose
  \<^verbatim>\<open>word/document.xml\<close> holds the fragments \<open>Hello\<close> and \<open>world\<close>, the program returns
  \<open>Hello world\<close> followed by a space, while the fragments joined with a single space as
  separator are \<open>Hello world\<close>.
\<close>

theorem docx_fallback_join_counterexample:
  "extract_text_from_file basic_latin
     (fallback_env [asc ''word/document.xml'' \<mapsto> ''<w:document/>''] hello_tree)
     (asc ''/up/cv.docx'') = Inr (asc ''Hello world '', [])
   \<and> spec_fallback_text hello_tree = asc ''Hello world''
   \<and> extract_text_from_file basic_latin
     (fallback_env [asc ''word/document.xml'' \<mapsto> ''<w:document/>''] hello_tree)
     (asc ''/up/cv.docx'') \<noteq> Inr (spec_fallback_text hello_tree, [])"
proof -
  have a: "extract_text_from_file basic_latin
     (fallback_env [asc ''word/document.xml'' \<mapsto> ''<w:document/>''] hello_tree)
     (asc ''/up/cv.docx'') = Inr (asc ''Hello world '', [])"
    by code_simp
  have b: "spec_fallback_text hello_tree = asc ''Hello world''"
    by code_simp
  show ?thesis unfolding a b by (simp add: asc_def)
qed

text \<open>
  C8, amended: for every DOCX on which the structured reader fails while the archive
  opens, holds the entry \<^verbatim>\<open>word/document.xml\<close> and that entry parses, the text returned
  is made of the non-empty texts of the elements whose tag is \<open>t\<close> (namespace-qualified or
  not), in document order, each followed by a single space: the fragments joined by single
  spaces, with one more space at the end when there is any fragment.
\<close>

theorem docx_fallback_text:
  assumes "lower T (snd (splitext path)) = asc ''.docx''"
    and "Document_paragraphs env path = Inl e"
    and "ZipFile env path = Inr z"
    and "z (asc ''word/document.xml'') = Some xml"
    and "ET_fromstring env xml = Inr tree"
  shows "extract_text_from_file T env path
           = Inr (concat (map (\<lambda>t. t @ asc '' '') (t_fragments tree)), [])
    \<and> concat (map (\<lambda>t. t @ asc '' '') (t_fragments tree)) =
        (if t_fragments tree = [] then [] else spec_fallback_text tree @ asc '' '')"
proof -
  have ne: "asc ''.docx'' \<noteq> asc ''.pdf''" by (simp add: asc_def)
  have "docx_fallback env path = Inr (collect_text [] (iter tree))"
    unfolding docx_fallback_cases using assms by simp
  then have "extract_text_from_file T env path = Inr (collect_text [] (iter tree), [])"
    unfolding extract_cases using assms ne by simp
  then show ?thesis
    by (simp add: collect_text_fragments concat_terminated_join spec_fallback_text_def)
qed

theorem docx_fallback_text_witness:
  "extract_text_from_file basic_latin
     (fallback_env [asc ''word/document.xml'' \<mapsto> ''<w:document/>''] hello_tree)
     (asc ''/up/cv.docx'') = Inr (asc ''Hello world '', [])"
proof -
  let ?z = "[asc ''word/document.xml'' \<mapsto> ''<w:document/>'']"
  let ?env = "fallback_env ?z hello_tree"
  have 1: "lower basic_latin (snd (splitext (asc ''/up/cv.docx''))) = asc ''.docx''" by code_simp
  have 2: "Document_paragraphs ?env (asc ''/up/cv.docx'') = Inl (LibraryError ''PackageNotFoundError'')"
    by (simp add: fallback_env_def)
  have 3: "ZipFile ?env (asc ''/up/cv.docx'') = Inr ?z"
    by (simp add: fallback_env_def)
  have 4: "?z (asc ''word/document.xml'') = Some ''<w:document/>''"
    by simp
  have 5: "ET_fromstring ?env ''<w:document/>'' = Inr hello_tree"
    by (simp add: fallback_env_def)
  have f: "concat (map (\<lambda>t. t @ asc '' '') (t_fragments hello_tree)) = asc ''Hello world ''"
    by code_simp
  from docx_fallback_text [OF 1 2 3 4 5] show ?thesis unfolding f by simp
qed

text \<open>
  C6, as stated, fails: for the text \<open>JDoe@example.com\<close> the program infers the name
  \<open>Jdoe\<close>, while capitalizing the first letter of the token \<open>JDoe\<close> gives \<open>JDoe\<close>:
  \<^verbatim>\<open>str.capitalize\<close> also turns every other letter of the token into lower case.
\<close>

theorem inferred_name_counterexample:
  "fst (extract_contacts basic_latin (asc ''JDoe@example.com'')) = asc ''Jdoe''
   \<and> spec_infer_name basic_latin (asc ''JDoe@example.com'') = asc ''JDoe''
   \<and> asc ''Jdoe'' \<noteq> asc ''JDoe''"
proof -
  have e: "findall basic_latin False EMAIL_REGEX (asc ''JDoe@example.com'') = [asc ''JDoe@example.com'']"
    by code_simp
  have a: "fst (extract_contacts basic_latin (asc ''JDoe@example.com'')) = asc ''Jdoe''"
    unfolding extract_contacts_name e by code_simp
  have b: "spec_infer_name basic_latin (asc ''JDoe@example.com'') = asc ''JDoe''"
    unfolding spec_infer_name_def e by code_simp
  from a b show ?thesis by (simp add: asc_def)
qed

text \<open>
  C6, amended: for every text in which at least one email occurs, the inferred name is
  obtained by taking the local part of the first email (what stands before its \<open>@\<close>, a
  non-empty run of word characters, dots and hyphens), splitting it on \<open>.\<close> or \<open>_\<close> into its
  non-empty tokens, applying \<^verbatim>\<open>str.capitalize\<close> to each token (which makes its first
  character upper case and all its other characters lower case), and joining the tokens
  with single spaces; for every text with no email, the inferred name is the empty string.
\<close>

theorem inferred_name:
  "fst (extract_contacts T txt) =
     (case findall T False EMAIL_REGEX txt of
        [] \<Rightarrow> []
      | e # _ \<Rightarrow> join (asc '' '') (map (capitalize T) (tokens is_name_sep (local_part e))))
   \<and> (unicode_ok T \<longrightarrow>
        (\<forall>e rest. findall T False EMAIL_REGEX txt = e # rest \<longrightarrow>
           local_part e \<noteq> [] \<and> list_all (email_char T) (local_part e)
           \<and> (\<exists>dom. e = local_part e @ asc ''@'' @ dom)))"
proof -
  have shape: "local_part e \<noteq> [] \<and> list_all (email_char T) (local_part e)
         \<and> (\<exists>dom. e = local_part e @ asc ''@'' @ dom)"
    if ok: "unicode_ok T" and f: "findall T False EMAIL_REGEX txt = e # rest" for e rest
  proof -
    from f have "e \<in> set (findall T False EMAIL_REGEX txt)" by simp
    then have "e \<in> lang T False EMAIL_REGEX" by (rule findall_in_lang)
    then obtain l d t where e: "e = l @ [64] @ (d @ [46] @ t)" "l \<noteq> []" "list_all (email_char T) l"
      unfolding lang_EMAIL by auto
    have at: "asc ''@'' = [64]" by (simp add: asc_def)
    from local_part_email [OF ok e(3), of "d @ [46] @ t"] e show ?thesis
      unfolding at by auto
  qed
  then show ?thesis using extract_contacts_name [of T "txt"] by blast
qed

theorem inferred_name_witness:
  "fst (extract_contacts basic_latin (asc ''Contact: jane.doe@example.com'')) = asc ''Jane Doe''
   \<and> fst (extract_contacts basic_latin (asc ''no address here'')) = []
   \<and> local_part (asc ''jane.doe@example.com'') = asc ''jane.doe''"
proof -
  have e1: "findall basic_latin False EMAIL_REGEX (asc ''Contact: jane.doe@example.com'')
              = [asc ''jane.doe@example.com'']"
    by code_simp
  have n1: "join (asc '' '') (map (capitalize basic_latin) (tokens is_name_sep (asc ''jane.doe'')))
              = asc ''Jane Doe''"
    by code_simp
  have e2: "findall basic_latin False EMAIL_REGEX (asc ''no address here'') = []"
    by code_simp
  have l: "local_part (asc ''jane.doe@example.com'') = asc ''jane.doe''"
    by code_simp
  from inferred_name [of basic_latin "asc ''Contact: jane.doe@example.com''"]
    inferred_name [of basic_latin "asc ''no address here''"] basic_latin_ok
  show ?thesis unfolding e1 e2 by (simp add: n1 l)
qed



text \<open>
  C4: for every text, the numbers found are the decimal numbers of the occurrences, taken
  from left to right without overlap, of a decimal number immediately followed by optional
  white space and one of the tokens \<open>years\<close>, \<open>yrs\<close>, \<open>year\<close>, its letters matched without
  regard to case; each is parsed as a float, which never fails; the experience of the
  record is the maximum of these floats, and it is 0.0 when there is none, which is the
  case exactly when the text holds no such occurrence.
\<close>

theorem experience_is_max:
  assumes ok: "unicode_ok T"
  shows "scanned_group (decimal_strings T) (unit_strings T) txt
           (findall_group T True EXP_NUMBER EXP_UNIT txt)
   \<and> (\<forall>n \<in> set (findall_group T True EXP_NUMBER EXP_UNIT txt).
         py_float T n = Inr (to_float (dec_value T n)))
   \<and> experience_of T txt =
        Inr (if findall_group T True EXP_NUMBER EXP_UNIT txt = [] then Fin 0
             else Max (set (map (\<lambda>n. to_float (dec_value T n))
                                (findall_group T True EXP_NUMBER EXP_UNIT txt))))
   \<and> (findall_group T True EXP_NUMBER EXP_UNIT txt = [] \<longleftrightarrow>
        (\<forall>pre g u post. txt = pre @ g @ u @ post \<longrightarrow> g \<in> decimal_strings T
           \<longrightarrow> u \<notin> unit_strings T))
   \<and> (\<exists>r. make_record T keywords exp_req relax domains tools skillsets path txt = Inr r
          \<and> experience_of T txt = Inr (Experience_Years r))"
proof -
  let ?nums = "findall_group T True EXP_NUMBER EXP_UNIT txt"
  have sc: "scanned_group (decimal_strings T) (unit_strings T) txt ?nums"
    by (rule exp_scanned [OF ok])
  have fl: "\<forall>n \<in> set ?nums. py_float T n = Inr (to_float (dec_value T n))"
    using findall_group_in_lang py_float_lang [OF ok] by blast
  have ex: "experience_of T txt =
        Inr (if ?nums = [] then Fin 0 else Max (set (map (\<lambda>n. to_float (dec_value T n)) ?nums)))"
    unfolding experience_of_Inr [OF ok] experience_def exp_nums_def by simp
  have emp: "?nums = [] \<longleftrightarrow>
        (\<forall>pre g u post. txt = pre @ g @ u @ post \<longrightarrow> g \<in> decimal_strings T
           \<longrightarrow> u \<notin> unit_strings T)"
    using sc by (rule scanned_group_empty_iff)
  have "make_record T keywords exp_req relax domains tools skillsets path txt
          = Inr (the_record T keywords exp_req relax domains tools skillsets path txt)"
    by (rule make_record_Inr [OF ok])
  moreover have "experience_of T txt =
     Inr (Experience_Years (the_record T keywords exp_req relax domains tools skillsets path txt))"
    by (simp add: experience_of_Inr [OF ok] the_record_def)
  ultimately have rec: "\<exists>r. make_record T keywords exp_req relax domains tools skillsets path txt = Inr r
          \<and> experience_of T txt = Inr (Experience_Years r)"
    by blast
  from sc fl ex emp rec show ?thesis by blast
qed

theorem experience_is_max_witness:
  "experience_of basic_latin (asc ''3 yrs, then 4.5 Years, 1year'') = Inr (Fin (9 / 2))
   \<and> experience_of basic_latin (asc ''ten years'') = Inr (Fin 0)"
proof -
  have n1: "findall_group basic_latin True EXP_NUMBER EXP_UNIT (asc ''3 yrs, then 4.5 Years, 1year'')
              = [asc ''3'', asc ''4.5'', asc ''1'']"
    by code_simp
  have n2: "findall_group basic_latin True EXP_NUMBER EXP_UNIT (asc ''ten years'') = []"
    by code_simp
  have f: "fl (dec_value basic_latin (asc ''3'')) = 3" "fl (dec_value basic_latin (asc ''4.5'')) = 9 / 2"
    "fl (dec_value basic_latin (asc ''1'')) = 1"
    by code_simp+
  have v: "to_float (dec_value basic_latin (asc ''3'')) = Fin 3"
    "to_float (dec_value basic_latin (asc ''4.5'')) = Fin (9 / 2)"
    "to_float (dec_value basic_latin (asc ''1'')) = Fin 1"
    by (simp_all add: to_float_Fin f)
  from experience_is_max [OF basic_latin_ok, of "asc ''3 yrs, then 4.5 Years, 1year''"]
    experience_is_max [OF basic_latin_ok, of "asc ''ten years''"]
  show ?thesis unfolding n1 n2 by (simp add: v)
qed

text \<open>
  C3, as stated, fails in its last part: the text \<open>12 years, 4.5 years of experience\<close>
  contains \<open>4.5 years of experience\<close>, its experience is the maximum 12.0, and with
  minimum experience 5.0 and no relaxation the record is satisfied.
\<close>

theorem experience_satisfied_counterexample:
  "map_sum id Experience_Years
     (make_record basic_latin [] (Some 5) False [] [] [] (asc ''cv.pdf'')
        (asc ''12 years, 4.5 years of experience''))
     = Inr (Fin 12)
   \<and> map_sum id Experience_Match
     (make_record basic_latin [] (Some 5) False [] [] [] (asc ''cv.pdf'')
        (asc ''12 years, 4.5 years of experience''))
     = Inr True"
  unfolding make_record_Inr [OF basic_latin_ok]
  by (simp add: the_record_def experience_12_45 exp_ok_of_def)

text \<open>
  C3, amended: for every text, if no minimum experience is configured the record is
  satisfied; otherwise the threshold is the minimum minus 1 (a floating-point subtraction)
  when the relax flag is set and the minimum is above 0, else the minimum unchanged, and
  the record is satisfied exactly when its experience is at least the threshold. In
  particular, with minimum 5.0 and a text containing \<open>4.5 years of experience\<close>, relaxing
  yields satisfied; not relaxing yields not satisfied exactly when the experience of the
  text is below 5.0, as it is for the text \<open>4.5 years of experience\<close> itself.
\<close>

theorem experience_satisfied:
  assumes ok: "unicode_ok T"
  shows "(\<exists>r. make_record T keywords exp_req relax domains tools skillsets path txt = Inr r
       \<and> Experience_Match r =
           (case exp_req of
              None \<Rightarrow> True
            | Some m \<Rightarrow> Fin (if relax \<and> 0 < m then fsub m 1 else m) \<le> Experience_Years r))
   \<and> (txt = a @ asc ''4.5 years of experience'' @ b \<longrightarrow>
        (\<exists>r. make_record T keywords (Some 5) True domains tools skillsets path txt = Inr r
            \<and> Experience_Match r)
        \<and> (\<exists>r. make_record T keywords (Some 5) False domains tools skillsets path txt = Inr r
            \<and> (\<not> Experience_Match r \<longleftrightarrow> Experience_Years r < Fin 5)))"
proof -
  let ?r = "\<lambda>req rel. the_record T keywords req rel domains tools skillsets path txt"
  have mk: "make_record T keywords req rel domains tools skillsets path txt = Inr (?r req rel)"
    for req rel by (rule make_record_Inr [OF ok])
  have rule: "Experience_Match (?r req rel) =
           (case req of
              None \<Rightarrow> True
            | Some m \<Rightarrow> Fin (if rel \<and> 0 < m then fsub m 1 else m) \<le> Experience_Years (?r req rel))"
    for req rel
    by (simp add: the_record_def exp_ok_of_def Let_def split: option.splits)
  have relaxed: "Experience_Match (?r (Some 5) True)"
    if "txt = a @ asc ''4.5 years of experience'' @ b"
  proof -
    have "asc ''4.5 years of experience'' = asc ''4.5 years'' @ asc '' of experience''"
      by (simp add: asc_def)
    with that have "txt = a @ asc ''4.5 years'' @ (asc '' of experience'' @ b)" by simp
    then have "Fin (9 / 2) \<le> experience T txt"
      using experience_contains_45 [OF ok, of a "asc '' of experience'' @ b"] by simp
    moreover have "Fin 4 \<le> Fin (9 / 2)" by simp
    ultimately have "Fin 4 \<le> experience T txt" by (rule order_trans [rotated])
    then show ?thesis by (simp add: the_record_def exp_ok_of_def fsub_5_1)
  qed
  have strict: "\<not> Experience_Match (?r (Some 5) False) \<longleftrightarrow> Experience_Years (?r (Some 5) False) < Fin 5"
    by (simp add: the_record_def exp_ok_of_def not_le)
  from mk rule relaxed strict show ?thesis by blast
qed

theorem experience_satisfied_witness:
  "map_sum id Experience_Match
     (make_record basic_latin [] (Some 5) True [] [] [] (asc ''cv.pdf'')
        (asc ''4.5 years of experience'')) = Inr True
   \<and> map_sum id Experience_Match
     (make_record basic_latin [] (Some 5) False [] [] [] (asc ''cv.pdf'')
        (asc ''4.5 years of experience'')) = Inr False
   \<and> map_sum id Experience_Match
     (make_record basic_latin [] None False [] [] [] (asc ''cv.pdf'')
        (asc ''4.5 years of experience'')) = Inr True"
proof -
  let ?t = "asc ''4.5 years of experience''"
  let ?p = "asc ''cv.pdf''"
  have y: "map_sum id Experience_Years (make_record basic_latin [] req rel [] [] [] ?p ?t)
             = Inr (Fin (9 / 2))"
    for req rel
    unfolding make_record_Inr [OF basic_latin_ok] by (simp add: the_record_def experience_45)
  have t: "?t = [] @ asc ''4.5 years of experience'' @ []" by simp
  note th = experience_satisfied [OF basic_latin_ok]
  from th [of "[]" "Some 5" True "[]" "[]" "[]" ?p ?t "[]" "[]"]
  have a: "map_sum id Experience_Match (make_record basic_latin [] (Some 5) True [] [] [] ?p ?t) = Inr True"
    using t by auto
  from th [of "[]" "Some 5" False "[]" "[]" "[]" ?p ?t "[]" "[]"]
  obtain r where r: "make_record basic_latin [] (Some 5) False [] [] [] ?p ?t = Inr r"
    "\<not> Experience_Match r \<longleftrightarrow> Experience_Years r < Fin 5"
    using t by auto
  from y [of "Some 5" False] r(1) have "Experience_Years r = Fin (9 / 2)" by simp
  with r have b: "map_sum id Experience_Match (make_record basic_latin [] (Some 5) False [] [] [] ?p ?t) = Inr False"
    by (simp add: less_pyfloat_def)
  from th [of "[]" None False "[]" "[]" "[]" ?p ?t "[]" "[]"]
  have c: "map_sum id Experience_Match (make_record basic_latin [] None False [] [] [] ?p ?t) = Inr True"
    by auto
  from a b c show ?thesis by simp
qed

end
